theory Spec2Isabelle
  imports Main
begin

section \<open>The stash quick command: data model\<close>

text \<open>
  The development embeds \<^verbatim>\<open>src/commands/git/stash.ts\<close>: the constructor of
  \<^verbatim>\<open>StashGitCommand\<close>, its getters, the generator \<^verbatim>\<open>steps\<close> with its
  error handler, and the four chains \<^verbatim>\<open>applyOrPop\<close>, \<^verbatim>\<open>drop\<close>,
  \<^verbatim>\<open>list\<close> and \<^verbatim>\<open>push\<close>.

  A JavaScript string is a sequence of code units; the model writes it as a HOL
  \<open>string\<close>, one \<open>char\<close> per code unit, so \<open>length\<close> and \<open>take\<close> are
  \<^verbatim>\<open>.length\<close> and \<^verbatim>\<open>.substring(0, n)\<close>.  The subcommand tag is kept as
  the string it is at run time (\<^verbatim>\<open>_subcommand: string | undefined\<close>), so that a tag
  outside the five literals, for which the source has \<^verbatim>\<open>default\<close> branches, is a
  value of the model.
\<close>

record repository =
  repo_id :: string
  path :: string
  formattedName :: string

record stash_commit =
  stashName :: string
  message :: string
  ref :: string
  repoPath :: string
  shortSha :: string
  number :: "string option"
  shortMessage :: string

datatype push_flag = IncludeUntracked | KeepIndex

text \<open>
  \<^verbatim>\<open>Partial<State>\<close>: every field of the union \<^verbatim>\<open>State\<close> may be absent.  The
  push message is the field \<open>message\<close> of the source; it is named \<open>push_message\<close>
  here because \<open>message\<close> is the field of the stash.
\<close>

record partial_state =
  subcommand :: "string option"
  repo :: "repository option"
  stash :: "stash_commit option"
  push_message :: "string option"
  uris :: "string list option"
  flags :: "push_flag list option"

text \<open>\<^verbatim>\<open>StepState<State>\<close>: the partial state with the counter and the confirm override.\<close>

record state = partial_state +
  counter :: int
  confirm :: "bool option"

record StashGitCommandArgs =
  args_state :: "partial_state option"
  args_confirm :: "bool option"

subsection \<open>The constructor (lines 96 to 134)\<close>

definition initialCounter :: "partial_state \<Rightarrow> int" where
  "initialCounter p =
     (let c0 = (0::int);
          c1 = (if subcommand p \<noteq> None then c0 + 1 else c0);
          c2 = (if repo p \<noteq> None then c1 + 1 else c1)
      in if subcommand p = Some ''apply'' \<or> subcommand p = Some ''drop'' \<or> subcommand p = Some ''pop''
         then (if stash p \<noteq> None then c2 + 1 else c2)
         else if subcommand p = Some ''push''
         then (if push_message p \<noteq> None then c2 + 1 else c2)
         else c2)"

definition initialState :: "StashGitCommandArgs option \<Rightarrow> state option" where
  "initialState a =
     (case a of
        None \<Rightarrow> None
      | Some ar \<Rightarrow>
          (case args_state ar of
             None \<Rightarrow> None
           | Some p \<Rightarrow>
               Some (partial_state.extend p
                       (state.fields (initialCounter p) (args_confirm ar)))))"

subsection \<open>Step descriptors, selections and events\<close>

datatype directive = Back | Cancel

text \<open>
  The items the source builds, with the fields it sets: a directive item
  (\<^verbatim>\<open>DirectiveQuickPickItem.create(directive, picked)\<close>), a row of the subcommand menu
  (label, description, picked, item), a repository item, a stash item, a row of a
  confirmation (label, description, detail, command), a row of the push confirmation
  (\<^verbatim>\<open>FlagsQuickPickItem.create(flags, item, {label, description, detail})\<close>) and the
  rows of the action menu of \<^verbatim>\<open>list\<close>, which are instances of
  \<^verbatim>\<open>CommandQuickPickItem\<close> or not.
\<close>

datatype item =
    DirectiveQuickPickItem directive bool
  | SubcommandItem string string bool string
  | RepositoryQuickPickItem repository bool
  | CommitQuickPickItem stash_commit bool
  | ConfirmItem string string string "string option"
  | FlagsQuickPickItem "push_flag list" "push_flag list" string string string
  | CommandQuickPickItem string
  | OtherQuickPickItem string

text \<open>
  A step descriptor records the arguments of the factory call that makes it:
  \<^verbatim>\<open>createPickStep({title, placeholder, items})\<close>,
  \<^verbatim>\<open>createInputStep({title, placeholder, value})\<close> and
  \<^verbatim>\<open>createConfirmStep(title, confirmations, undefined, {placeholder})\<close>.  Buttons
  and key bindings are a side channel that never resolves a step and are left out.
\<close>

datatype step =
    PickStep string string "item list"
  | InputStep string string "string option"
  | ConfirmStep string "item list" string

text \<open>
  What the presentation layer hands back at a \<^verbatim>\<open>yield\<close>: a directive (also when
  the user picks a directive item), the chosen item (\<^verbatim>\<open>selection[0]\<close>), or the
  typed text.
\<close>

datatype response = Directive directive | Selected item | Typed string

datatype exn = BreakQuickCommand | Error string

datatype operation =
    StashApply string string bool
  | StashDelete string string
  | StashSave string string "string list option" bool bool
  | Execute string

datatype event =
    Yield step
  | Call operation
  | LogError exn string
  | ShowWarningMessage string
  | ShowInformationMessage string
  | ShowErrorMessage string
  | ShowGenericErrorMessage string

text \<open>
  How a statement completes: normally, by \<^verbatim>\<open>break\<close>, \<^verbatim>\<open>continue\<close>,
  \<^verbatim>\<open>return\<close> or \<^verbatim>\<open>throw\<close>; \<open>Suspend\<close> when the generator waits at a
  \<^verbatim>\<open>yield\<close> for a response the script does not hold; \<open>IllTyped\<close> when the
  response is not of the type \<^verbatim>\<open>StepSelection<typeof step>\<close> that the source
  reads its payload at.
\<close>

datatype completion = Normal | Break | Continue | Return | Throw exn | Suspend | IllTyped

type_synonym result = "event list \<times> state \<times> response list \<times> completion"

subsection \<open>What the source file imports\<close>

text \<open>
  The base class \<^verbatim>\<open>QuickCommandBase\<close>, the constants and the git service are not
  part of the source file; the model takes them as parameters.  The two navigation
  helpers see the step, the counter (their parameter is typed
  \<^verbatim>\<open>{ counter: number }\<close>) and the selection, and either throw or return a boolean
  and leave a counter.  \<open>baseConfirm\<close> is the inherited method \<^verbatim>\<open>confirm\<close>,
  which reads the getters \<^verbatim>\<open>canConfirm\<close>, \<^verbatim>\<open>canSkipConfirm\<close> and
  \<^verbatim>\<open>skipConfirmKey\<close> that this class overrides.  The git service answers the same
  question the same way during one run.  \<open>fails\<close> gives the description of the
  exception a terminal call raises at the call, if it raises one: the source does not
  await these calls, so an exception reaches the handler of \<^verbatim>\<open>steps\<close> only when
  it is raised before the call returns.  \<open>rejects\<close> gives the description with which
  the promise that a terminal call returned is rejected later, if it is: the source calls
  with \<^verbatim>\<open>void\<close> and throws the break signal next, so nothing in the source, and no
  definition below, reads it.
\<close>

datatype moved = Throws exn | Returns bool int

record env =
  canPickStepMoveNext :: "step \<Rightarrow> int \<Rightarrow> response \<Rightarrow> moved"
  canInputStepMoveNext :: "step \<Rightarrow> int \<Rightarrow> response \<Rightarrow> moved"
  baseConfirm :: "bool \<Rightarrow> bool \<Rightarrow> string \<Rightarrow> bool option \<Rightarrow> bool"
  superCanSkipConfirm :: bool
  pickedVia :: string
  glyphDot :: string
  glyphDash :: string
  glyphEllipsis :: string
  pad :: "string \<Rightarrow> nat \<Rightarrow> nat \<Rightarrow> string"
  getFormattedPath :: "string \<Rightarrow> string \<Rightarrow> string"
  getOrderedRepositories :: "repository list"
  getActiveRepository :: "repository option"
  getStashList :: "string \<Rightarrow> stash_commit list option"
  getItems :: "stash_commit \<Rightarrow> item list"
  fails :: "operation \<Rightarrow> string option"
  rejects :: "operation \<Rightarrow> string option"

section \<open>The command\<close>

subsection \<open>Titles and getters (lines 65 to 146)\<close>

definition key :: string where "key = ''stash''"
definition label :: string where "label = ''stash''"
definition title :: string where "title = ''Stash''"

definition subcommandToSubtitleMap :: "(string \<times> string) list" where
  "subcommandToSubtitleMap =
     [(''apply'', ''Apply''), (''drop'', ''Drop''), (''list'', ''List''),
      (''pop'', ''Pop''), (''push'', ''Push'')]"

definition getSubtitle :: "string option \<Rightarrow> string option" where
  "getSubtitle sc =
     (case sc of None \<Rightarrow> Some [] | Some s \<Rightarrow> map_of subcommandToSubtitleMap s)"

text \<open>A value inside a template literal; \<^verbatim>\<open>undefined\<close> prints as its name.\<close>

definition templ :: "string option \<Rightarrow> string" where
  "templ v = (case v of None \<Rightarrow> ''undefined'' | Some s \<Rightarrow> s)"

definition canConfirm :: "string option \<Rightarrow> bool" where
  "canConfirm this_subcommand = (this_subcommand \<noteq> None \<and> this_subcommand \<noteq> Some ''list'')"

definition canSkipConfirm :: "env \<Rightarrow> string option \<Rightarrow> bool" where
  "canSkipConfirm env this_subcommand =
     (if this_subcommand = Some ''drop'' then False else superCanSkipConfirm env)"

definition skipConfirmKey :: "env \<Rightarrow> string option \<Rightarrow> string" where
  "skipConfirmKey env this_subcommand =
     key @ (case this_subcommand of None \<Rightarrow> [] | Some s \<Rightarrow> ''-'' @ s) @ '':'' @ pickedVia env"

text \<open>\<^verbatim>\<open>this.confirm(state.confirm)\<close>: the inherited method on this object.\<close>

definition this_confirm :: "env \<Rightarrow> string option \<Rightarrow> bool option \<Rightarrow> bool" where
  "this_confirm env this_subcommand override =
     baseConfirm env (canConfirm this_subcommand) (canSkipConfirm env this_subcommand)
       (skipConfirmKey env this_subcommand) override"

subsection \<open>Yielding a step\<close>

text \<open>
  \<^verbatim>\<open>const selection = yield step; if (!this.canPickStepMoveNext(step, state, selection)) ...\<close>:
  the next response of the script, then the helper on it.  \<open>Declined\<close> is the helper
  returning false, \<open>Accepted\<close> its returning true; both carry the state with the counter
  the helper left.
\<close>

datatype asked =
    Awaiting
  | Thrown exn "response list"
  | Declined state "response list"
  | Accepted state response "response list"

definition askPick :: "env \<Rightarrow> step \<Rightarrow> state \<Rightarrow> response list \<Rightarrow> asked" where
  "askPick env step st inputs =
     (case inputs of
        [] \<Rightarrow> Awaiting
      | selection # rest \<Rightarrow>
          (case canPickStepMoveNext env step (counter st) selection of
             Throws ex \<Rightarrow> Thrown ex rest
           | Returns b c \<Rightarrow>
               if b then Accepted (st\<lparr>counter := c\<rparr>) selection rest
               else Declined (st\<lparr>counter := c\<rparr>) rest))"

definition askInput :: "env \<Rightarrow> step \<Rightarrow> state \<Rightarrow> response list \<Rightarrow> asked" where
  "askInput env step st inputs =
     (case inputs of
        [] \<Rightarrow> Awaiting
      | v # rest \<Rightarrow>
          (case canInputStepMoveNext env step (counter st) v of
             Throws ex \<Rightarrow> Thrown ex rest
           | Returns b c \<Rightarrow>
               if b then Accepted (st\<lparr>counter := c\<rparr>) v rest
               else Declined (st\<lparr>counter := c\<rparr>) rest))"

text \<open>
  The item that a selection is: one of the items of the step it answers.  The payload the
  source reads off it is \<^verbatim>\<open>selection[0].item\<close> at the subcommand, repository,
  stash and flags menus, \<^verbatim>\<open>selection[0].command\<close> at the confirmation of apply and
  pop, and the typed value at the input; at the action menu the source tests
  \<^verbatim>\<open>command instanceof CommandQuickPickItem\<close>.  \<open>None\<close> is a response that is no
  selection of the step, or one without that payload.
\<close>

definition itemsOf :: "step \<Rightarrow> item list" where
  "itemsOf step =
     (case step of
        PickStep t p items \<Rightarrow> items
      | InputStep t p v \<Rightarrow> []
      | ConfirmStep t confirmations p \<Rightarrow> confirmations)"

definition chosen :: "step \<Rightarrow> response \<Rightarrow> item option" where
  "chosen step sel =
     (case sel of
        Selected it \<Rightarrow> if it \<in> set (itemsOf step) then Some it else None
      | _ \<Rightarrow> None)"

definition selectedSubcommand :: "step \<Rightarrow> response \<Rightarrow> string option" where
  "selectedSubcommand step sel =
     (case chosen step sel of Some (SubcommandItem l d p it) \<Rightarrow> Some it | _ \<Rightarrow> None)"

definition selectedRepository :: "step \<Rightarrow> response \<Rightarrow> repository option" where
  "selectedRepository step sel =
     (case chosen step sel of Some (RepositoryQuickPickItem r p) \<Rightarrow> Some r | _ \<Rightarrow> None)"

definition selectedCommit :: "step \<Rightarrow> response \<Rightarrow> stash_commit option" where
  "selectedCommit step sel =
     (case chosen step sel of Some (CommitQuickPickItem c p) \<Rightarrow> Some c | _ \<Rightarrow> None)"

definition selectedCommand :: "step \<Rightarrow> response \<Rightarrow> string option" where
  "selectedCommand step sel =
     (case chosen step sel of Some (ConfirmItem l d dt cmd) \<Rightarrow> cmd | _ \<Rightarrow> None)"

definition selectedFlags :: "step \<Rightarrow> response \<Rightarrow> push_flag list option" where
  "selectedFlags step sel =
     (case chosen step sel of Some (FlagsQuickPickItem fl it l d dt) \<Rightarrow> Some it | _ \<Rightarrow> None)"

definition typedValue :: "response \<Rightarrow> string option" where
  "typedValue sel = (case sel of Typed v \<Rightarrow> Some v | _ \<Rightarrow> None)"

definition commandQuickPickItem :: "step \<Rightarrow> response \<Rightarrow> string option" where
  "commandQuickPickItem step sel =
     (case chosen step sel of Some (CommandQuickPickItem c) \<Rightarrow> Some c | _ \<Rightarrow> None)"

definition prepend :: "event list \<Rightarrow> result \<Rightarrow> result" where
  "prepend evs res = (case res of (evs', st, rest, c) \<Rightarrow> (evs @ evs', st, rest, c))"

text \<open>Sequencing of statements: the second runs when the first completes normally.\<close>

definition andThen :: "result \<Rightarrow> (state \<Rightarrow> response list \<Rightarrow> result) \<Rightarrow> result" where
  "andThen res k =
     (case res of (evs, st, rest, c) \<Rightarrow> if c = Normal then prepend evs (k st rest) else res)"

text \<open>
  A terminal call followed by \<^verbatim>\<open>throw new BreakQuickCommand()\<close>: the call is issued,
  and the statement completes with the exception of the call when it raises one and with
  the break signal when it returns.
\<close>

definition terminal :: "env \<Rightarrow> operation \<Rightarrow> state \<Rightarrow> response list \<Rightarrow> result" where
  "terminal env op st inputs =
     ([Call op], st, inputs,
      Throw (case fails env op of None \<Rightarrow> BreakQuickCommand | Some m \<Rightarrow> Error m))"

subsection \<open>Choosing the stash (lines 319 to 374 and 448 to 501)\<close>

definition chainTitle :: "env \<Rightarrow> state \<Rightarrow> repository \<Rightarrow> string" where
  "chainTitle env st r =
     title @ '' '' @ templ (getSubtitle (subcommand st)) @ pad env (glyphDot env) 2 2 @ formattedName r"

definition stashPickStep :: "env \<Rightarrow> string \<Rightarrow> repository \<Rightarrow> state \<Rightarrow> step" where
  "stashPickStep env placeholder r st =
     PickStep (chainTitle env st r)
       (case getStashList env (path r) of
          None \<Rightarrow> formattedName r @ '' has no stashes''
        | Some cs \<Rightarrow> placeholder)
       (case getStashList env (path r) of
          None \<Rightarrow> [DirectiveQuickPickItem Back True, DirectiveQuickPickItem Cancel False]
        | Some cs \<Rightarrow>
            map (\<lambda>c. CommitQuickPickItem c
                       (case stash st of None \<Rightarrow> False | Some s \<Rightarrow> stashName c = stashName s))
              cs)"

text \<open>
  The first statement of \<^verbatim>\<open>applyOrPop\<close> and of \<^verbatim>\<open>drop\<close>, which differ in the
  placeholder only; \<open>k\<close> is the rest of the loop body, entered with the stash that
  \<^verbatim>\<open>state.stash\<close> holds then.
\<close>

definition askStash ::
  "env \<Rightarrow> string \<Rightarrow> repository \<Rightarrow> state \<Rightarrow> response list \<Rightarrow>
   (stash_commit \<Rightarrow> state \<Rightarrow> response list \<Rightarrow> result) \<Rightarrow> result" where
  "askStash env placeholder r st inputs k =
     (let step = stashPickStep env placeholder r st in
      case askPick env step st inputs of
        Awaiting \<Rightarrow> ([Yield step], st, [], Suspend)
      | Thrown ex rest \<Rightarrow> ([Yield step], st, rest, Throw ex)
      | Declined st' rest \<Rightarrow> ([Yield step], st', rest, Normal)
      | Accepted st' selection rest \<Rightarrow>
          (case selectedCommit step selection of
             None \<Rightarrow> ([Yield step], st', rest, IllTyped)
           | Some c \<Rightarrow> prepend [Yield step] (k c (st'\<lparr>stash := Some c\<rparr>) rest)))"

definition pickStash ::
  "env \<Rightarrow> string \<Rightarrow> repository \<Rightarrow> state \<Rightarrow> response list \<Rightarrow>
   (stash_commit \<Rightarrow> state \<Rightarrow> response list \<Rightarrow> result) \<Rightarrow> result" where
  "pickStash env placeholder r st inputs k =
     (case stash st of
        None \<Rightarrow> askStash env placeholder r st inputs k
      | Some s \<Rightarrow>
          if counter st < 3 then askStash env placeholder r st inputs k
          else k s st inputs)"

definition truncated :: "env \<Rightarrow> string \<Rightarrow> string" where
  "truncated env m = (if length m > 80 then take 80 m @ glyphEllipsis env else m)"

subsection \<open>apply and pop (lines 317 to 444)\<close>

definition applyOrPopConfirmStep :: "env \<Rightarrow> repository \<Rightarrow> stash_commit \<Rightarrow> state \<Rightarrow> step" where
  "applyOrPopConfirmStep env r s st =
     (let message = truncated env (message s) in
      ConfirmStep (''Confirm '' @ chainTitle env st r)
        [ConfirmItem
           (title @ '' '' @ templ (getSubtitle (subcommand st)))
           (stashName s @ pad env (glyphDash env) 2 2 @ message)
           (if subcommand st = Some ''pop''
            then ''Will delete '' @ stashName s @ '' and apply the changes to the working tree of ''
                   @ formattedName r
            else ''Will apply the changes from '' @ stashName s @ '' to the working tree of ''
                   @ formattedName r)
           (subcommand st),
         ConfirmItem
           (title @ '' '' @ (if subcommand st = Some ''pop'' then ''Apply'' else ''Pop''))
           (stashName s @ pad env (glyphDash env) 2 2 @ message)
           (if subcommand st = Some ''pop''
            then ''Will apply the changes from '' @ stashName s @ '' to the working tree of ''
                   @ formattedName r
            else ''Will delete '' @ stashName s @ '' and apply the changes to the working tree of ''
                   @ formattedName r)
           (Some (if subcommand st = Some ''pop'' then ''apply'' else ''pop''))]
        (''Confirm '' @ title @ '' '' @ templ (getSubtitle (subcommand st))))"

text \<open>Lines 376 to 440: the confirmation, gated by \<^verbatim>\<open>this.confirm\<close>, and the call.\<close>

definition applyOrPopConfirm ::
  "env \<Rightarrow> string option \<Rightarrow> repository \<Rightarrow> stash_commit \<Rightarrow> state \<Rightarrow> response list \<Rightarrow> result" where
  "applyOrPopConfirm env this_subcommand r s st inputs =
     (if this_confirm env this_subcommand (confirm st) then
        (let step = applyOrPopConfirmStep env r s st in
         case askPick env step st inputs of
           Awaiting \<Rightarrow> ([Yield step], st, [], Suspend)
         | Thrown ex rest \<Rightarrow> ([Yield step], st, rest, Throw ex)
         | Declined st' rest \<Rightarrow> ([Yield step], st', rest, Normal)
         | Accepted st' selection rest \<Rightarrow>
             (case selectedCommand step selection of
                None \<Rightarrow> ([Yield step], st', rest, IllTyped)
              | Some command \<Rightarrow>
                  prepend [Yield step]
                    (terminal env (StashApply (path r) (stashName s) (command = ''pop''))
                       (st'\<lparr>subcommand := Some command\<rparr>) rest)))
      else terminal env (StashApply (path r) (stashName s) (subcommand st = Some ''pop'')) st inputs)"

definition applyOrPop ::
  "env \<Rightarrow> string option \<Rightarrow> repository \<Rightarrow> state \<Rightarrow> response list \<Rightarrow> result" where
  "applyOrPop env this_subcommand r st inputs =
     pickStash env ''Choose a stash to apply to your working tree'' r st inputs
       (applyOrPopConfirm env this_subcommand r)"

subsection \<open>drop (lines 446 to 545)\<close>

definition dropConfirmStep :: "env \<Rightarrow> repository \<Rightarrow> stash_commit \<Rightarrow> state \<Rightarrow> step" where
  "dropConfirmStep env r s st =
     (let message = truncated env (message s) in
      ConfirmStep (''Confirm '' @ chainTitle env st r)
        [ConfirmItem
           (title @ '' '' @ templ (getSubtitle (subcommand st)))
           (stashName s @ pad env (glyphDash env) 2 2 @ message)
           (''Will delete '' @ stashName s)
           None]
        (''Confirm '' @ title @ '' '' @ templ (getSubtitle (subcommand st))))"

text \<open>Lines 503 to 541: the confirmation is created and yielded without a test.\<close>

definition dropConfirm ::
  "env \<Rightarrow> repository \<Rightarrow> stash_commit \<Rightarrow> state \<Rightarrow> response list \<Rightarrow> result" where
  "dropConfirm env r s st inputs =
     (let step = dropConfirmStep env r s st in
      case askPick env step st inputs of
        Awaiting \<Rightarrow> ([Yield step], st, [], Suspend)
      | Thrown ex rest \<Rightarrow> ([Yield step], st, rest, Throw ex)
      | Declined st' rest \<Rightarrow> ([Yield step], st', rest, Normal)
      | Accepted st' selection rest \<Rightarrow>
          prepend [Yield step] (terminal env (StashDelete (path r) (stashName s)) st' rest))"

definition stash_drop :: "env \<Rightarrow> repository \<Rightarrow> state \<Rightarrow> response list \<Rightarrow> result" where
  "stash_drop env r st inputs =
     pickStash env ''Choose a stash to delete'' r st inputs (dropConfirm env r)"

subsection \<open>list (lines 547 to 645)\<close>

definition listPickStep :: "env \<Rightarrow> repository \<Rightarrow> stash_commit option \<Rightarrow> state \<Rightarrow> step" where
  "listPickStep env r pickedStash st =
     PickStep (chainTitle env st r)
       (case getStashList env (path r) of
          None \<Rightarrow> formattedName r @ '' has no stashes''
        | Some cs \<Rightarrow> ''Choose a stash'')
       (case getStashList env (path r) of
          None \<Rightarrow> [DirectiveQuickPickItem Back True, DirectiveQuickPickItem Cancel False]
        | Some cs \<Rightarrow>
            map (\<lambda>c. CommitQuickPickItem c
                       (case pickedStash of None \<Rightarrow> False | Some p \<Rightarrow> ref c = ref p))
              cs)"

definition listActionStep :: "env \<Rightarrow> repository \<Rightarrow> stash_commit \<Rightarrow> state \<Rightarrow> step" where
  "listActionStep env r pickedStash st =
     PickStep (chainTitle env st r @ pad env (glyphDot env) 2 2 @ shortSha pickedStash)
       ((case number pickedStash of None \<Rightarrow> [] | Some n \<Rightarrow> n @ '': '') @ shortMessage pickedStash)
       (getItems env pickedStash)"

text \<open>
  The loop of \<^verbatim>\<open>list\<close>, with the local \<^verbatim>\<open>pickedStash\<close> as an argument.  Every
  item of the listing carries a commit, so the test \<^verbatim>\<open>pickedStash !== undefined\<close>
  of line 610 holds for each selection that the step offers.  A selection of the action
  menu that is no \<^verbatim>\<open>CommandQuickPickItem\<close> falls through to the next round.
\<close>

function stash_list ::
  "env \<Rightarrow> repository \<Rightarrow> stash_commit option \<Rightarrow> state \<Rightarrow> response list \<Rightarrow> result" where
  "stash_list env r pickedStash st inputs =
     (let step = listPickStep env r pickedStash st in
      case askPick env step st inputs of
        Awaiting \<Rightarrow> ([Yield step], st, [], Suspend)
      | Thrown ex rest \<Rightarrow> ([Yield step], st, rest, Throw ex)
      | Declined st' rest \<Rightarrow> ([Yield step], st', rest, Normal)
      | Accepted st' selection rest \<Rightarrow>
          (case selectedCommit step selection of
             None \<Rightarrow> ([Yield step], st', rest, IllTyped)
           | Some c \<Rightarrow>
               (let step2 = listActionStep env r c st' in
                case askPick env step2 st' rest of
                  Awaiting \<Rightarrow> ([Yield step, Yield step2], st', [], Suspend)
                | Thrown ex rest2 \<Rightarrow> ([Yield step, Yield step2], st', rest2, Throw ex)
                | Declined st2 rest2 \<Rightarrow>
                    prepend [Yield step, Yield step2] (stash_list env r (Some c) st2 rest2)
                | Accepted st2 selection2 rest2 \<Rightarrow>
                    (case commandQuickPickItem step2 selection2 of
                       Some command \<Rightarrow>
                         prepend [Yield step, Yield step2] (terminal env (Execute command) st2 rest2)
                     | None \<Rightarrow>
                         prepend [Yield step, Yield step2] (stash_list env r (Some c) st2 rest2)))))"
  by pat_completeness auto

lemma askPick_shorter:
  "askPick env step st inputs = Declined st' rest \<Longrightarrow> length rest < length inputs"
  "askPick env step st inputs = Accepted st' sel rest \<Longrightarrow> length rest < length inputs"
  "askPick env step st inputs = Thrown ex rest \<Longrightarrow> length rest < length inputs"
  by (auto simp: askPick_def split: list.splits moved.splits if_splits)

lemma askInput_shorter:
  "askInput env step st inputs = Declined st' rest \<Longrightarrow> length rest < length inputs"
  "askInput env step st inputs = Accepted st' sel rest \<Longrightarrow> length rest < length inputs"
  "askInput env step st inputs = Thrown ex rest \<Longrightarrow> length rest < length inputs"
  by (auto simp: askInput_def split: list.splits moved.splits if_splits)

termination stash_list
  by (relation "measure (\<lambda>(env, r, pickedStash, st, inputs). length inputs)")
     (auto dest!: askPick_shorter)

declare stash_list.simps [simp del]

subsection \<open>push (lines 648 to 736)\<close>

text \<open>A number inside a template literal: its decimal digits.\<close>

definition digit :: "nat \<Rightarrow> char" where
  "digit n = ''0123456789'' ! (n mod 10)"

function decimal :: "nat \<Rightarrow> string" where
  "decimal n = (if n < 10 then [digit n] else decimal (n div 10) @ [digit (n mod 10)])"
  by pat_completeness auto
termination
  by (relation "measure id") auto

declare decimal.simps [simp del]

definition pushInputStep :: "env \<Rightarrow> repository \<Rightarrow> state \<Rightarrow> step" where
  "pushInputStep env r st =
     InputStep (chainTitle env st r) ''Please provide a stash message'' (push_message st)"

definition stashedFiles :: "env \<Rightarrow> repository \<Rightarrow> string list \<Rightarrow> string" where
  "stashedFiles env r us =
     (case us of
        [u] \<Rightarrow> getFormattedPath env u (path r)
      | _ \<Rightarrow> decimal (length us) @ '' files'')"

definition pushConfirmStep ::
  "env \<Rightarrow> repository \<Rightarrow> string \<Rightarrow> push_flag list \<Rightarrow> state \<Rightarrow> step" where
  "pushConfirmStep env r m fl st =
     ConfirmStep (''Confirm '' @ chainTitle env st r)
       (case (if uris st = Some [] then None else uris st) of
          None \<Rightarrow>
            [FlagsQuickPickItem fl []
               (title @ '' '' @ templ (getSubtitle (subcommand st)))
               m
               ''Will stash uncommitted changes'',
             FlagsQuickPickItem fl [IncludeUntracked]
               (title @ '' '' @ templ (getSubtitle (subcommand st)) @ '' & Include Untracked'')
               (''--include-untracked '' @ m)
               ''Will stash uncommitted changes, including untracked files'',
             FlagsQuickPickItem fl [KeepIndex]
               (title @ '' '' @ templ (getSubtitle (subcommand st)) @ '' & Keep Staged'')
               (''--keep-index '' @ m)
               ''Will stash uncommitted changes, but will keep staged files intact'']
        | Some us \<Rightarrow>
            [FlagsQuickPickItem fl []
               (title @ '' '' @ templ (getSubtitle (subcommand st)))
               m
               (''Will stash changes in '' @ stashedFiles env r us),
             FlagsQuickPickItem fl [KeepIndex]
               (title @ '' '' @ templ (getSubtitle (subcommand st)) @ '' & Keep Staged'')
               (''--keep-index '' @ m)
               (''Will stash changes in '' @ stashedFiles env r us
                  @ '', but will keep staged files intact'')])
       (''Confirm '' @ title @ '' '' @ templ (getSubtitle (subcommand st)))"

text \<open>
  Lines 672 to 732, entered with the message and the flags that the state holds then.
\<close>

definition pushConfirm ::
  "env \<Rightarrow> string option \<Rightarrow> repository \<Rightarrow> string \<Rightarrow> push_flag list \<Rightarrow> state \<Rightarrow>
   response list \<Rightarrow> result" where
  "pushConfirm env this_subcommand r m fl st inputs =
     (if this_confirm env this_subcommand (confirm st) then
        (let step = pushConfirmStep env r m fl st in
         case askPick env step st inputs of
           Awaiting \<Rightarrow> ([Yield step], st, [], Suspend)
         | Thrown ex rest \<Rightarrow> ([Yield step], st, rest, Throw ex)
         | Declined st' rest \<Rightarrow> ([Yield step], st', rest, Normal)
         | Accepted st' selection rest \<Rightarrow>
             (case selectedFlags step selection of
                None \<Rightarrow> ([Yield step], st', rest, IllTyped)
              | Some fl' \<Rightarrow>
                  prepend [Yield step]
                    (terminal env
                       (StashSave (path r) m (uris st')
                          (IncludeUntracked \<in> set fl') (KeepIndex \<in> set fl'))
                       (st'\<lparr>flags := Some fl'\<rparr>) rest)))
      else
        terminal env
          (StashSave (path r) m (uris st) (IncludeUntracked \<in> set fl) (KeepIndex \<in> set fl))
          st inputs)"

text \<open>Lines 654 to 670: the message step.\<close>

definition askMessage ::
  "env \<Rightarrow> string option \<Rightarrow> repository \<Rightarrow> push_flag list \<Rightarrow> state \<Rightarrow> response list \<Rightarrow> result" where
  "askMessage env this_subcommand r fl st inputs =
     (let step = pushInputStep env r st in
      case askInput env step st inputs of
        Awaiting \<Rightarrow> ([Yield step], st, [], Suspend)
      | Thrown ex rest \<Rightarrow> ([Yield step], st, rest, Throw ex)
      | Declined st' rest \<Rightarrow> ([Yield step], st', rest, Normal)
      | Accepted st' v rest \<Rightarrow>
          (case typedValue v of
             None \<Rightarrow> ([Yield step], st', rest, IllTyped)
           | Some m \<Rightarrow>
               prepend [Yield step]
                 (pushConfirm env this_subcommand r m fl (st'\<lparr>push_message := Some m\<rparr>) rest)))"

definition stash_push ::
  "env \<Rightarrow> string option \<Rightarrow> repository \<Rightarrow> state \<Rightarrow> response list \<Rightarrow> result" where
  "stash_push env this_subcommand r st0 inputs =
     (let fl = (case flags st0 of None \<Rightarrow> [] | Some f \<Rightarrow> f);
          st = st0\<lparr>flags := Some fl\<rparr>
      in case push_message st of
           None \<Rightarrow> askMessage env this_subcommand r fl st inputs
         | Some m \<Rightarrow>
             if counter st < 3 then askMessage env this_subcommand r fl st inputs
             else pushConfirm env this_subcommand r m fl st inputs)"

subsection \<open>The sequencer (lines 148 to 315)\<close>

definition subcommandStep :: "state \<Rightarrow> step" where
  "subcommandStep st =
     PickStep title (''Choose a '' @ label @ '' command'')
       [SubcommandItem ''apply''
          ''integrates changes from the specified stash into the current branch''
          (subcommand st = Some ''apply'') ''apply'',
        SubcommandItem ''drop'' ''deletes the specified stash''
          (subcommand st = Some ''drop'') ''drop'',
        SubcommandItem ''list'' ''lists the saved stashes''
          (subcommand st = Some ''list'') ''list'',
        SubcommandItem ''pop''
          ''integrates changes from the specified stash into the current branch and deletes the stash''
          (subcommand st = Some ''pop'') ''pop'',
        SubcommandItem ''push''
          ''saves your local changes to a new stash and discards them from the working tree and index''
          (subcommand st = Some ''push'') ''push'']"

text \<open>Lines 154 to 203.\<close>

definition pickSubcommand :: "env \<Rightarrow> state \<Rightarrow> response list \<Rightarrow> result" where
  "pickSubcommand env st inputs =
     (if subcommand st = None \<or> counter st < 1 then
        (let step = subcommandStep st in
         case askPick env step st inputs of
           Awaiting \<Rightarrow> ([Yield step], st, [], Suspend)
         | Thrown ex rest \<Rightarrow> ([Yield step], st, rest, Throw ex)
         | Declined st' rest \<Rightarrow> ([Yield step], st', rest, Break)
         | Accepted st' selection rest \<Rightarrow>
             (case selectedSubcommand step selection of
                None \<Rightarrow> ([Yield step], st', rest, IllTyped)
              | Some it \<Rightarrow> ([Yield step], st'\<lparr>subcommand := Some it\<rparr>, rest, Normal)))
      else ([], st, inputs, Normal))"

definition repositoryStep :: "env \<Rightarrow> state \<Rightarrow> step" where
  "repositoryStep env st =
     (let active = (case repo st of Some r \<Rightarrow> Some r | None \<Rightarrow> getActiveRepository env) in
      PickStep (title @ '' '' @ templ (getSubtitle (subcommand st))) ''Choose a repository''
        (map (\<lambda>r. RepositoryQuickPickItem r
                    (case active of None \<Rightarrow> False | Some a \<Rightarrow> repo_id r = repo_id a))
           (getOrderedRepositories env)))"

text \<open>Lines 207 to 239.\<close>

definition pickRepository :: "env \<Rightarrow> state \<Rightarrow> response list \<Rightarrow> result" where
  "pickRepository env st inputs =
     (let repos = getOrderedRepositories env in
      if repo st = None \<or> counter st < 2 then
        (case repos of
           [r] \<Rightarrow> ([], st\<lparr>counter := counter st + 1, repo := Some r\<rparr>, inputs, Normal)
         | _ \<Rightarrow>
             (let step = repositoryStep env st in
              case askPick env step st inputs of
                Awaiting \<Rightarrow> ([Yield step], st, [], Suspend)
              | Thrown ex rest \<Rightarrow> ([Yield step], st, rest, Throw ex)
              | Declined st' rest \<Rightarrow> ([Yield step], st', rest, Continue)
              | Accepted st' selection rest \<Rightarrow>
                  (case selectedRepository step selection of
                     None \<Rightarrow> ([Yield step], st', rest, IllTyped)
                   | Some r \<Rightarrow> ([Yield step], st'\<lparr>repo := Some r\<rparr>, rest, Normal))))
      else ([], st, inputs, Normal))"

text \<open>
  Lines 241 to 257.  The chains read \<^verbatim>\<open>state.repo\<close>, which \<open>pickRepository\<close> has
  set; reading a property of \<^verbatim>\<open>undefined\<close> would raise a \<^verbatim>\<open>TypeError\<close>.
\<close>

definition withRepo ::
  "state \<Rightarrow> response list \<Rightarrow> (repository \<Rightarrow> state \<Rightarrow> response list \<Rightarrow> result) \<Rightarrow> result" where
  "withRepo st inputs chain =
     (case repo st of
        None \<Rightarrow> ([], st, inputs, Throw (Error ''TypeError''))
      | Some r \<Rightarrow> chain r st inputs)"

definition dispatch :: "env \<Rightarrow> string option \<Rightarrow> state \<Rightarrow> response list \<Rightarrow> result" where
  "dispatch env this_subcommand st inputs =
     (if subcommand st = Some ''apply'' \<or> subcommand st = Some ''pop'' then
        withRepo st inputs (applyOrPop env this_subcommand)
      else if subcommand st = Some ''drop'' then
        withRepo st inputs (stash_drop env)
      else if subcommand st = Some ''list'' then
        withRepo st inputs (\<lambda>r. stash_list env r None)
      else if subcommand st = Some ''push'' then
        withRepo st inputs (stash_push env this_subcommand)
      else ([], st, inputs, Return))"

text \<open>Lines 259 to 262.\<close>

definition afterChain :: "env \<Rightarrow> state \<Rightarrow> response list \<Rightarrow> result" where
  "afterChain env st inputs =
     ([], (if length (getOrderedRepositories env) = 1 then st\<lparr>counter := counter st - 1\<rparr> else st),
      inputs, Continue)"

text \<open>The body of the \<^verbatim>\<open>try\<close> block; line 205 sets \<^verbatim>\<open>this._subcommand\<close>.\<close>

definition tryBlock :: "env \<Rightarrow> state \<Rightarrow> response list \<Rightarrow> result" where
  "tryBlock env st inputs =
     andThen (pickSubcommand env st inputs) (\<lambda>st inputs.
       let this_subcommand = subcommand st in
       andThen (pickRepository env st inputs) (\<lambda>st inputs.
         andThen (dispatch env this_subcommand st inputs) (afterChain env)))"

subsection \<open>The error handler (lines 263 to 311)\<close>

text \<open>\<^verbatim>\<open>s.includes(pat)\<close>: \<open>pat\<close> occurs in \<open>s\<close> as a contiguous run.\<close>

fun str_includes :: "string \<Rightarrow> string \<Rightarrow> bool" where
  "str_includes [] pat = (pat = [])"
| "str_includes (c # s) pat = (take (length pat) (c # s) = pat \<or> str_includes s pat)"

definition isWhiteSpace :: "char \<Rightarrow> bool" where
  "isWhiteSpace c =
     (c = CHR '' '' \<or> c = CHR 0x09 \<or> c = CHR 0x0A \<or> c = CHR 0x0B \<or> c = CHR 0x0C
      \<or> c = CHR 0x0D \<or> c = CHR 0xA0)"

definition trim :: "string \<Rightarrow> string" where
  "trim s = rev (dropWhile isWhiteSpace (rev (dropWhile isWhiteSpace s)))"

text \<open>
  \<^verbatim>\<open>.replace(/\n+?/g, '; ')\<close>: the lazy quantifier matches one line feed at a time,
  so every line feed is replaced.
\<close>

definition replaceLineFeeds :: "string \<Rightarrow> string" where
  "replaceLineFeeds s = concat (map (\<lambda>c. if c = CHR 0x0A then ''; '' else [c]) s)"

text \<open>The character U+2014 of the message of line 288, in its UTF-8 bytes.\<close>

definition emDash :: string where
  "emDash = [CHR 0xE2, CHR 0x80, CHR 0x94]"

text \<open>
  How the generator ends: it returns \<^verbatim>\<open>undefined\<close> (\<open>Finished\<close>), an exception
  leaves it (\<open>Raised\<close>), it waits at a \<^verbatim>\<open>yield\<close> (\<open>Suspended\<close>), or the script
  held a response of the wrong type (\<open>Mistyped\<close>).
\<close>

datatype outcome = Finished | Raised exn | Suspended | Mistyped

definition catch :: "state \<Rightarrow> exn \<Rightarrow> event list \<times> outcome" where
  "catch st ex =
     (case ex of
        BreakQuickCommand \<Rightarrow> ([], Finished)
      | Error m \<Rightarrow>
          (let logged = LogError ex (title @ ''.'' @ templ (subcommand st)) in
           if subcommand st = Some ''apply'' \<or> subcommand st = Some ''pop'' then
             (if str_includes m ''Your local changes to the following files would be overwritten by merge''
              then ([logged,
                     ShowWarningMessage
                       ''Unable to apply stash. Your working tree changes would be overwritten''],
                    Finished)
              else if str_includes m ''Auto-merging'' \<and> str_includes m ''CONFLICT''
              then ([logged, ShowInformationMessage ''Stash applied with conflicts''], Finished)
              else ([logged,
                     ShowGenericErrorMessage
                       (''Unable to apply stash '' @ emDash @ '' '' @ replaceLineFeeds (trim m))],
                    Finished))
           else if subcommand st = Some ''drop'' then
             ([logged, ShowGenericErrorMessage ''Unable to delete stash''], Finished)
           else if subcommand st = Some ''push'' then
             (if str_includes m ''newer version of Git''
              then ([logged, ShowErrorMessage (''Unable to stash changes. '' @ m)], Finished)
              else ([logged, ShowGenericErrorMessage ''Unable to stash changes''], Finished))
           else ([logged], Raised ex)))"

subsection \<open>The loop of the sequencer\<close>

lemma prepend_simp [simp]: "prepend evs (evs', st, rest, c) = (evs @ evs', st, rest, c)"
  by (simp add: prepend_def)

lemma terminal_shorter:
  "terminal env op st inputs = (evs, st', rest, c) \<Longrightarrow> rest = inputs \<and> c \<noteq> Normal \<and> c \<noteq> Continue"
  by (auto simp: terminal_def)

lemma applyOrPopConfirm_shorter:
  assumes "applyOrPopConfirm env sc r s st inputs = (evs, st', rest, c)"
  shows "length rest \<le> length inputs \<and> (c = Normal \<or> c = Continue \<longrightarrow> length rest < length inputs)"
  using assms
  by (auto simp: applyOrPopConfirm_def Let_def terminal_def
      split: if_splits asked.splits option.splits dest!: askPick_shorter)

lemma dropConfirm_shorter:
  assumes "dropConfirm env r s st inputs = (evs, st', rest, c)"
  shows "length rest \<le> length inputs \<and> (c = Normal \<or> c = Continue \<longrightarrow> length rest < length inputs)"
  using assms
  by (auto simp: dropConfirm_def Let_def terminal_def
      split: if_splits asked.splits option.splits dest!: askPick_shorter)

lemma pushConfirm_shorter:
  assumes "pushConfirm env sc r m fl st inputs = (evs, st', rest, c)"
  shows "length rest \<le> length inputs \<and> (c = Normal \<or> c = Continue \<longrightarrow> length rest < length inputs)"
  using assms
  by (auto simp: pushConfirm_def Let_def terminal_def
      split: if_splits asked.splits option.splits dest!: askPick_shorter)

lemma askStash_shorter:
  assumes "askStash env ph r st inputs k = (evs, st', rest, c)"
    and "\<And>s st1 ins evs1 st2 rest1 c1. k s st1 ins = (evs1, st2, rest1, c1) \<Longrightarrow>
           length rest1 \<le> length ins"
  shows "length rest < length inputs \<or> (inputs = [] \<and> rest = [] \<and> c = Suspend)"
proof (cases "askPick env (stashPickStep env ph r st) st inputs")
  case Awaiting
  with assms(1) show ?thesis
    by (auto simp: askStash_def Let_def askPick_def split: list.splits moved.splits if_splits)
next
  case (Thrown ex rest')
  with assms(1) show ?thesis
    by (auto simp: askStash_def Let_def dest!: askPick_shorter)
next
  case (Declined st1 rest')
  with assms(1) show ?thesis
    by (auto simp: askStash_def Let_def dest!: askPick_shorter)
next
  case (Accepted st1 sel rest')
  then have less: "length rest' < length inputs"
    by (rule askPick_shorter)
  show ?thesis
  proof (cases "selectedCommit (stashPickStep env ph r st) sel")
    case None
    with Accepted assms(1) less show ?thesis
      by (auto simp: askStash_def Let_def)
  next
    case (Some cm)
    obtain evs1 st2 rest1 c1 where k: "k cm (st1\<lparr>stash := Some cm\<rparr>) rest' = (evs1, st2, rest1, c1)"
      by (cases "k cm (st1\<lparr>stash := Some cm\<rparr>) rest'") auto
    from assms(2)[OF k] have "length rest1 \<le> length rest'" .
    with Some Accepted assms(1) less k show ?thesis
      by (auto simp: askStash_def Let_def)
  qed
qed

lemma pickStash_shorter:
  assumes "pickStash env ph r st inputs k = (evs, st', rest, c)"
    and "\<And>s st1 ins evs1 st2 rest1 c1. k s st1 ins = (evs1, st2, rest1, c1) \<Longrightarrow>
           length rest1 \<le> length ins \<and> (c1 = Normal \<or> c1 = Continue \<longrightarrow> length rest1 < length ins)"
  shows "length rest \<le> length inputs \<and> (c = Normal \<or> c = Continue \<longrightarrow> length rest < length inputs)"
proof (cases "stash st \<noteq> None \<and> \<not> counter st < 3")
  case True
  with assms show ?thesis
    by (auto simp: pickStash_def split: option.splits)
next
  case False
  then have "askStash env ph r st inputs k = (evs, st', rest, c)"
    using assms(1) by (auto simp: pickStash_def split: option.splits if_splits)
  from askStash_shorter[OF this] assms(2) show ?thesis
    by fastforce
qed

lemma applyOrPop_shorter:
  assumes "applyOrPop env sc r st inputs = (evs, st', rest, c)"
  shows "length rest \<le> length inputs \<and> (c = Normal \<or> c = Continue \<longrightarrow> length rest < length inputs)"
  using assms unfolding applyOrPop_def
  by (rule pickStash_shorter) (rule applyOrPopConfirm_shorter)

lemma stash_drop_shorter:
  assumes "stash_drop env r st inputs = (evs, st', rest, c)"
  shows "length rest \<le> length inputs \<and> (c = Normal \<or> c = Continue \<longrightarrow> length rest < length inputs)"
  using assms unfolding stash_drop_def
  by (rule pickStash_shorter) (rule dropConfirm_shorter)

lemma prepend_shorter:
  assumes "prepend evs0 res = (evs, st', rest, c)"
  obtains evs1 where "res = (evs1, st', rest, c)" and "evs = evs0 @ evs1"
  using assms by (cases res) (auto simp: prepend_def)

lemma stash_list_shorter:
  "stash_list env r p st inputs = (evs, st', rest, c) \<Longrightarrow>
   length rest \<le> length inputs \<and> (c = Normal \<or> c = Continue \<longrightarrow> length rest < length inputs)"
proof (induction env r p st inputs arbitrary: evs st' rest c rule: stash_list.induct)
  case (1 env r p st inputs)
  let ?step = "listPickStep env r p st"
  note run = "1.prems"[unfolded stash_list.simps[of env r p st inputs] Let_def]
  show ?case
  proof (cases "askPick env ?step st inputs")
    case Awaiting
    with run show ?thesis by (auto simp: askPick_def split: list.splits moved.splits if_splits)
  next
    case (Thrown ex rest1)
    with run show ?thesis by (auto dest!: askPick_shorter)
  next
    case (Declined st1 rest1)
    with run show ?thesis by (auto dest!: askPick_shorter)
  next
    case (Accepted st1 sel rest1)
    then have l1: "length rest1 < length inputs" by (rule askPick_shorter)
    show ?thesis
    proof (cases "selectedCommit ?step sel")
      case None
      with Accepted run l1 show ?thesis by auto
    next
      case (Some cm)
      let ?step2 = "listActionStep env r cm st1"
      show ?thesis
      proof (cases "askPick env ?step2 st1 rest1")
        case Awaiting
        with Accepted Some run l1 show ?thesis by auto
      next
        case (Thrown ex rest2)
        with Accepted Some run l1 show ?thesis by (auto dest!: askPick_shorter)
      next
        case D: (Declined st2 rest2)
        then have l2: "length rest2 < length rest1" by (rule askPick_shorter)
        from Accepted Some D run
        have "prepend [Yield ?step, Yield ?step2] (stash_list env r (Some cm) st2 rest2)
              = (evs, st', rest, c)" by simp
        then obtain evs1 where "stash_list env r (Some cm) st2 rest2 = (evs1, st', rest, c)"
          by (rule prepend_shorter)
        from "1.IH"(1)[OF refl Accepted Some refl D this] l1 l2 show ?thesis by auto
      next
        case A: (Accepted st2 sel2 rest2)
        then have l2: "length rest2 < length rest1" by (rule askPick_shorter)
        show ?thesis
        proof (cases "commandQuickPickItem ?step2 sel2")
          case None
          from Accepted Some A None run
          have "prepend [Yield ?step, Yield ?step2] (stash_list env r (Some cm) st2 rest2)
                = (evs, st', rest, c)" by simp
          then obtain evs1 where "stash_list env r (Some cm) st2 rest2 = (evs1, st', rest, c)"
            by (rule prepend_shorter)
          from "1.IH"(2)[OF refl Accepted Some refl A None this] l1 l2 show ?thesis by auto
        next
          case (Some cmd)
          with Accepted \<open>selectedCommit ?step sel = Some cm\<close> A run l1 l2 show ?thesis
            by (auto simp: terminal_def)
        qed
      qed
    qed
  qed
qed

lemma askMessage_shorter:
  assumes "askMessage env sc r fl st inputs = (evs, st', rest, c)"
  shows "length rest < length inputs \<or> (inputs = [] \<and> rest = [] \<and> c = Suspend)"
proof (cases "askInput env (pushInputStep env r st) st inputs")
  case Awaiting
  with assms show ?thesis
    by (auto simp: askMessage_def Let_def askInput_def split: list.splits moved.splits if_splits)
next
  case (Thrown ex rest')
  with assms show ?thesis
    by (auto simp: askMessage_def Let_def dest!: askInput_shorter)
next
  case (Declined st1 rest')
  with assms show ?thesis
    by (auto simp: askMessage_def Let_def dest!: askInput_shorter)
next
  case (Accepted st1 v rest')
  then have less: "length rest' < length inputs"
    by (rule askInput_shorter)
  show ?thesis
  proof (cases "typedValue v")
    case None
    with Accepted assms less show ?thesis
      by (auto simp: askMessage_def Let_def)
  next
    case (Some m)
    with Accepted assms
    have "prepend [Yield (pushInputStep env r st)]
            (pushConfirm env sc r m fl (st1\<lparr>push_message := Some m\<rparr>) rest') = (evs, st', rest, c)"
      by (simp add: askMessage_def Let_def)
    then obtain evs1 where
      "pushConfirm env sc r m fl (st1\<lparr>push_message := Some m\<rparr>) rest' = (evs1, st', rest, c)"
      by (rule prepend_shorter)
    from pushConfirm_shorter[OF this] less show ?thesis by auto
  qed
qed

lemma stash_push_shorter:
  assumes "stash_push env sc r st inputs = (evs, st', rest, c)"
  shows "length rest \<le> length inputs \<and> (c = Normal \<or> c = Continue \<longrightarrow> length rest < length inputs)"
proof -
  let ?fl = "case flags st of None \<Rightarrow> [] | Some f \<Rightarrow> f"
  let ?st = "st\<lparr>flags := Some ?fl\<rparr>"
  show ?thesis
  proof (cases "push_message st \<noteq> None \<and> \<not> counter st < 3")
    case True
    then obtain m where "push_message st = Some m" by auto
    with True assms have "pushConfirm env sc r m ?fl ?st inputs = (evs, st', rest, c)"
      by (simp add: stash_push_def Let_def)
    then show ?thesis by (rule pushConfirm_shorter)
  next
    case False
    with assms have "askMessage env sc r ?fl ?st inputs = (evs, st', rest, c)"
      by (auto simp: stash_push_def Let_def split: option.splits if_splits)
    from askMessage_shorter[OF this] show ?thesis by auto
  qed
qed

lemma pickSubcommand_shorter:
  assumes "pickSubcommand env st inputs = (evs, st', rest, c)"
  shows "length rest \<le> length inputs"
  using assms
  by (auto simp: pickSubcommand_def Let_def
      split: if_splits asked.splits option.splits dest!: askPick_shorter)

lemma pickRepository_shorter:
  assumes "pickRepository env st inputs = (evs, st', rest, c)"
  shows "length rest \<le> length inputs \<and> (c = Continue \<longrightarrow> length rest < length inputs)"
  using assms
  by (auto simp: pickRepository_def Let_def
      split: if_splits asked.splits option.splits list.splits dest!: askPick_shorter)

lemma dispatch_shorter:
  assumes "dispatch env sc st inputs = (evs, st', rest, c)"
  shows "length rest \<le> length inputs \<and> (c = Normal \<or> c = Continue \<longrightarrow> length rest < length inputs)"
proof (cases "repo st")
  case None
  with assms show ?thesis
    by (auto simp: dispatch_def withRepo_def split: if_splits)
next
  case (Some r)
  with assms show ?thesis
    by (auto simp: dispatch_def withRepo_def split: if_splits
        dest: applyOrPop_shorter stash_drop_shorter stash_list_shorter stash_push_shorter)
qed

lemma andThen_cases:
  assumes "andThen res k = (evs, st', rest, c)"
  obtains (stop) "res = (evs, st', rest, c)" "c \<noteq> Normal"
  | (go) evs0 st0 rest0 evs1 where "res = (evs0, st0, rest0, Normal)"
      "k st0 rest0 = (evs1, st', rest, c)" "evs = evs0 @ evs1"
proof (cases res)
  case (fields evs0 st0 rest0 c0)
  show ?thesis
  proof (cases "c0 = Normal")
    case True
    with fields assms have "prepend evs0 (k st0 rest0) = (evs, st', rest, c)"
      by (simp add: andThen_def)
    then obtain evs1 where "k st0 rest0 = (evs1, st', rest, c)" "evs = evs0 @ evs1"
      by (rule prepend_shorter)
    with True fields show ?thesis by (intro go) auto
  next
    case False
    with fields assms show ?thesis by (intro stop) (auto simp: andThen_def)
  qed
qed

lemma tryBlock_shorter:
  assumes "tryBlock env st inputs = (evs, st', rest, c)"
  shows "c \<noteq> Normal \<and> (c = Continue \<longrightarrow> length rest < length inputs)"
  using assms unfolding tryBlock_def
proof (cases rule: andThen_cases)
  case stop
  then show ?thesis
    by (auto simp: pickSubcommand_def Let_def split: if_splits asked.splits option.splits)
next
  case (go evs0 st0 rest0 evs1)
  from go(1) have l0: "length rest0 \<le> length inputs" by (rule pickSubcommand_shorter)
  from go(2)[unfolded Let_def] show ?thesis
  proof (cases rule: andThen_cases)
    case stop
    with pickRepository_shorter[OF stop(1)] l0 show ?thesis by auto
  next
    case (go evs2 st2 rest2 evs3)
    from pickRepository_shorter[OF go(1)] l0 have l2: "length rest2 \<le> length inputs" by auto
    from go(2) show ?thesis
    proof (cases rule: andThen_cases)
      case stop
      with dispatch_shorter[OF stop(1)] l2 show ?thesis by auto
    next
      case (go evs4 st4 rest4 evs5)
      with dispatch_shorter[OF go(1)] l2 show ?thesis by (auto simp: afterChain_def)
    qed
  qed
qed

text \<open>
  The loop \<^verbatim>\<open>while (true) { try { ... } catch (ex) { ... } }\<close> and the
  \<^verbatim>\<open>return undefined\<close> after it: a round that completes normally or with
  \<^verbatim>\<open>continue\<close> is followed by the next one, \<^verbatim>\<open>break\<close> leaves the loop, and an exception goes to the
  handler.
\<close>

type_synonym run = "event list \<times> state \<times> outcome"

definition prependRun :: "event list \<Rightarrow> run \<Rightarrow> run" where
  "prependRun evs res = (case res of (evs', st, out) \<Rightarrow> (evs @ evs', st, out))"

lemma prependRun_simp [simp]: "prependRun evs (evs', st, out) = (evs @ evs', st, out)"
  by (simp add: prependRun_def)

function steps_loop :: "env \<Rightarrow> state \<Rightarrow> response list \<Rightarrow> run" where
  "steps_loop env st inputs =
     (case tryBlock env st inputs of
        (evs, st', rest, c) \<Rightarrow>
          (case c of
             Normal \<Rightarrow> prependRun evs (steps_loop env st' rest)
           | Continue \<Rightarrow> prependRun evs (steps_loop env st' rest)
           | Break \<Rightarrow> (evs, st', Finished)
           | Return \<Rightarrow> (evs, st', Finished)
           | Throw ex \<Rightarrow> (case catch st' ex of (reported, out) \<Rightarrow> (evs @ reported, st', out))
           | Suspend \<Rightarrow> (evs, st', Suspended)
           | IllTyped \<Rightarrow> (evs, st', Mistyped)))"
  by pat_completeness auto
termination
  by (relation "measure (\<lambda>(env, st, inputs). length inputs)")
     (auto dest: tryBlock_shorter[OF sym])

declare steps_loop.simps [simp del]

text \<open>Line 149: the initial state is \<^verbatim>\<open>{ counter: 0 }\<close> when the constructor set none.\<close>

definition emptyState :: state where
  "emptyState =
     \<lparr>subcommand = None, repo = None, stash = None, push_message = None, uris = None,
      flags = None, counter = 0, confirm = None\<rparr>"

definition steps :: "env \<Rightarrow> StashGitCommandArgs option \<Rightarrow> response list \<Rightarrow> run" where
  "steps env a inputs =
     steps_loop env (case initialState a of None \<Rightarrow> emptyState | Some st \<Rightarrow> st) inputs"

definition events :: "run \<Rightarrow> event list" where
  "events res = fst res"

definition final :: "run \<Rightarrow> state" where
  "final res = fst (snd res)"

definition outcome :: "run \<Rightarrow> outcome" where
  "outcome res = snd (snd res)"

section \<open>A reference environment\<close>

text \<open>
  Modelled from the spec: the navigation helpers \<^verbatim>\<open>canPickStepMoveNext\<close> and
  \<^verbatim>\<open>canInputStepMoveNext\<close> of the base class, which the source file does not
  contain.  The spec has \<open>abort\<close> end the whole wizard with no result and no side effect,
  has \<open>back\<close> leave the current iteration so that the unmet condition on the counter
  re-asks the previous step, keeps the counter at or above zero, and lets it increase
  going forward.  So \<open>Cancel\<close> raises the break signal, \<open>Back\<close> takes one from the
  counter and declines, and any other selection adds one and accepts.
\<close>

definition specMoveNext :: "step \<Rightarrow> int \<Rightarrow> response \<Rightarrow> moved" where
  "specMoveNext step c sel =
     (case sel of
        Directive Cancel \<Rightarrow> Throws BreakQuickCommand
      | Directive Back \<Rightarrow> Returns False (max 0 (c - 1))
      | _ \<Rightarrow> Returns True (c + 1))"

text \<open>
  Modelled from the spec: the inherited method \<^verbatim>\<open>confirm\<close>.  A confirmation that
  cannot be skipped is asked; otherwise the override of the invocation decides, and
  without one the remembered preference, the list of keys whose confirmation is skipped.
\<close>

definition specConfirm :: "string list \<Rightarrow> bool \<Rightarrow> bool \<Rightarrow> string \<Rightarrow> bool option \<Rightarrow> bool" where
  "specConfirm skipConfirmations confirmable skippable skipKey override =
     (if \<not> confirmable \<or> \<not> skippable then True
      else case override of Some b \<Rightarrow> b | None \<Rightarrow> skipKey \<notin> set skipConfirmations)"

text \<open>
  The environment used to run the model on concrete inputs: the helpers above, plain
  glyphs, the given repositories and stash listing, the given failures of the terminal
  calls, and promises that are not rejected.
\<close>

definition refEnv ::
  "string list \<Rightarrow> repository list \<Rightarrow> stash_commit list option \<Rightarrow> (operation \<Rightarrow> string option) \<Rightarrow> env" where
  "refEnv skipConfirmations repos listing failing =
     \<lparr>canPickStepMoveNext = specMoveNext,
      canInputStepMoveNext = specMoveNext,
      baseConfirm = specConfirm skipConfirmations,
      superCanSkipConfirm = True,
      pickedVia = ''menu'',
      glyphDot = ''.'',
      glyphDash = ''-'',
      glyphEllipsis = ''...'',
      pad = (\<lambda>s m n. replicate m CHR '' '' @ s @ replicate n CHR '' ''),
      getFormattedPath = (\<lambda>u relativeTo. u),
      getOrderedRepositories = repos,
      getActiveRepository = None,
      getStashList = (\<lambda>p. listing),
      getItems = (\<lambda>c. [CommandQuickPickItem ''Show Details'', OtherQuickPickItem ''Changed Files'']),
      fails = failing,
      rejects = (\<lambda>op. None)\<rparr>"

definition repoA :: repository where
  "repoA = \<lparr>repo_id = ''a'', path = ''/a'', formattedName = ''A''\<rparr>"

definition repoB :: repository where
  "repoB = \<lparr>repo_id = ''b'', path = ''/b'', formattedName = ''B''\<rparr>"

definition stash0 :: stash_commit where
  "stash0 =
     \<lparr>stashName = ''stash-0'', message = ''wip'', ref = ''r0'', repoPath = ''/a'',
      shortSha = ''abc'', number = Some ''0'', shortMessage = ''wip''\<rparr>"

definition stash1 :: stash_commit where
  "stash1 =
     \<lparr>stashName = ''stash-1'', message = ''older'', ref = ''r1'', repoPath = ''/a'',
      shortSha = ''def'', number = Some ''1'', shortMessage = ''older''\<rparr>"

definition noState :: partial_state where
  "noState =
     \<lparr>subcommand = None, repo = None, stash = None, push_message = None, uris = None,
      flags = None\<rparr>"

definition succeeding :: "operation \<Rightarrow> string option" where
  "succeeding op = None"

definition failingWith :: "string \<Rightarrow> operation \<Rightarrow> string option" where
  "failingWith m op = Some m"

definition argsFor :: "partial_state \<Rightarrow> StashGitCommandArgs" where
  "argsFor p = \<lparr>args_state = Some p, args_confirm = None\<rparr>"

section \<open>The shape of a run\<close>

lemma steps_loop_Continue:
  "tryBlock env st inputs = (evs, st', rest, Continue) \<Longrightarrow>
   steps_loop env st inputs = prependRun evs (steps_loop env st' rest)"
  by (subst steps_loop.simps) simp

lemma steps_loop_Break:
  "tryBlock env st inputs = (evs, st', rest, Break) \<Longrightarrow>
   steps_loop env st inputs = (evs, st', Finished)"
  by (subst steps_loop.simps) simp

lemma steps_loop_Return:
  "tryBlock env st inputs = (evs, st', rest, Return) \<Longrightarrow>
   steps_loop env st inputs = (evs, st', Finished)"
  by (subst steps_loop.simps) simp

lemma steps_loop_Throw:
  "tryBlock env st inputs = (evs, st', rest, Throw ex) \<Longrightarrow>
   steps_loop env st inputs = (evs @ fst (catch st' ex), st', snd (catch st' ex))"
  by (subst steps_loop.simps) (simp split: prod.splits)

lemma steps_loop_Suspend:
  "tryBlock env st inputs = (evs, st', rest, Suspend) \<Longrightarrow>
   steps_loop env st inputs = (evs, st', Suspended)"
  by (subst steps_loop.simps) simp

lemma steps_loop_IllTyped:
  "tryBlock env st inputs = (evs, st', rest, IllTyped) \<Longrightarrow>
   steps_loop env st inputs = (evs, st', Mistyped)"
  by (subst steps_loop.simps) simp

fun isYield :: "event \<Rightarrow> bool" where
  "isYield (Yield s) = True"
| "isYield e = False"

fun isCall :: "event \<Rightarrow> bool" where
  "isCall (Call op) = True"
| "isCall e = False"

text \<open>The exception that the statement of a terminal call completes with.\<close>

definition raisedBy :: "env \<Rightarrow> operation \<Rightarrow> exn" where
  "raisedBy env op = (case fails env op of None \<Rightarrow> BreakQuickCommand | Some m \<Rightarrow> Error m)"

text \<open>
  What holds when a terminal call is issued, of the yields before it and of the state:
  the tag is the one of the chain, the flag of \<open>StashApply\<close> tells whether the tag is
  pop, and the last step yielded before \<open>StashDelete\<close> is the confirmation of drop
  for the stash that is deleted.
\<close>

definition opFits :: "env \<Rightarrow> operation \<Rightarrow> event list \<Rightarrow> state \<Rightarrow> bool" where
  "opFits env op ys st =
     (case op of
        StashApply p n remove \<Rightarrow>
          (subcommand st = Some ''apply'' \<or> subcommand st = Some ''pop'')
          \<and> remove = (subcommand st = Some ''pop'')
      | StashDelete p n \<Rightarrow>
          subcommand st = Some ''drop''
          \<and> (\<exists>ys' r s st0. ys = ys' @ [Yield (dropConfirmStep env r s st0)]
                \<and> path r = p \<and> stashName s = n)
      | StashSave p m us untracked keep \<Rightarrow> subcommand st = Some ''push''
      | Execute c \<Rightarrow> subcommand st = Some ''list'')"

text \<open>
  A statement either only yields, or yields and then issues one terminal call, which is
  its last event, and completes with the exception of that call.
\<close>

definition shaped :: "env \<Rightarrow> result \<Rightarrow> bool" where
  "shaped env res =
     (case res of
        (evs, st, rest, c) \<Rightarrow>
          (\<forall>e \<in> set evs. isYield e)
          \<or> (\<exists>ys op. evs = ys @ [Call op] \<and> (\<forall>e \<in> set ys. isYield e)
                \<and> c = Throw (raisedBy env op) \<and> opFits env op ys st))"

lemma opFits_prefix: "opFits env op ys st \<Longrightarrow> opFits env op (evs0 @ ys) st"
proof (cases op)
  case (StashDelete p n)
  assume "opFits env op ys st"
  with StashDelete obtain ys' r s st0 where
    *: "subcommand st = Some ''drop''" "ys = ys' @ [Yield (dropConfirmStep env r s st0)]"
       "path r = p" "stashName s = n"
    unfolding opFits_def by auto
  have "evs0 @ ys = (evs0 @ ys') @ [Yield (dropConfirmStep env r s st0)]"
    using *(2) by simp
  then have "\<exists>ys'' r s st0. evs0 @ ys = ys'' @ [Yield (dropConfirmStep env r s st0)]
                \<and> path r = p \<and> stashName s = n"
    using *(3,4) by blast
  with * StashDelete show ?thesis unfolding opFits_def by simp
next
  case (StashApply p n rm)
  assume "opFits env op ys st"
  with StashApply show ?thesis unfolding opFits_def by simp
next
  case (StashSave p m us u k)
  assume "opFits env op ys st"
  with StashSave show ?thesis unfolding opFits_def by simp
next
  case (Execute c)
  assume "opFits env op ys st"
  with Execute show ?thesis unfolding opFits_def by simp
qed

lemma shaped_yields: "\<forall>e \<in> set evs. isYield e \<Longrightarrow> shaped env (evs, st, rest, c)"
  by (simp add: shaped_def)

lemma shaped_call:
  assumes "evs = ys @ [Call op]" and "\<forall>e \<in> set ys. isYield e"
    and "c = Throw (raisedBy env op)" and "opFits env op ys st"
  shows "shaped env (evs, st, rest, c)"
proof -
  have "\<exists>ys op. evs = ys @ [Call op] \<and> (\<forall>e \<in> set ys. isYield e)
          \<and> c = Throw (raisedBy env op) \<and> opFits env op ys st"
    using assms by blast
  then show ?thesis unfolding shaped_def by simp
qed

lemma shaped_cases:
  assumes "shaped env (evs, st, rest, c)"
  obtains (yields) "\<forall>e \<in> set evs. isYield e"
  | (call) ys op where "evs = ys @ [Call op]" "\<forall>e \<in> set ys. isYield e"
      "c = Throw (raisedBy env op)" "opFits env op ys st"
proof -
  from assms have "(\<forall>e \<in> set evs. isYield e)
      \<or> (\<exists>ys op. evs = ys @ [Call op] \<and> (\<forall>e \<in> set ys. isYield e)
                \<and> c = Throw (raisedBy env op) \<and> opFits env op ys st)"
    unfolding shaped_def by simp
  then show thesis
  proof
    assume "\<forall>e \<in> set evs. isYield e"
    then show thesis by (rule yields)
  next
    assume "\<exists>ys op. evs = ys @ [Call op] \<and> (\<forall>e \<in> set ys. isYield e)
                \<and> c = Throw (raisedBy env op) \<and> opFits env op ys st"
    then obtain ys op where "evs = ys @ [Call op]" "\<forall>e \<in> set ys. isYield e"
      "c = Throw (raisedBy env op)" "opFits env op ys st" by blast
    then show thesis by (rule call)
  qed
qed

lemma shaped_prepend:
  assumes "shaped env res" and "\<forall>e \<in> set evs0. isYield e"
  shows "shaped env (prepend evs0 res)"
proof (cases res)
  case (fields evs st rest c)
  from assms(1)[unfolded fields]
  show ?thesis
  proof (cases rule: shaped_cases)
    case yields
    with assms(2) have "\<forall>e \<in> set (evs0 @ evs). isYield e" by auto
    then show ?thesis unfolding fields prepend_simp by (rule shaped_yields)
  next
    case (call ys op)
    have "evs0 @ evs = (evs0 @ ys) @ [Call op]" using call(1) by simp
    moreover have "\<forall>e \<in> set (evs0 @ ys). isYield e" using call(2) assms(2) by auto
    moreover have "opFits env op (evs0 @ ys) st" using call(4) by (rule opFits_prefix)
    ultimately show ?thesis unfolding fields prepend_simp using call(3)
      by (intro shaped_call)
  qed
qed

lemma shaped_terminal:
  assumes "opFits env op [] st"
  shows "shaped env (terminal env op st inputs)"
proof -
  have "terminal env op st inputs = ([Call op], st, inputs, Throw (raisedBy env op))"
    by (simp add: terminal_def raisedBy_def)
  moreover have "shaped env ([Call op], st, inputs, Throw (raisedBy env op))"
    using assms by (intro shaped_call[where ys = "[]"]) simp_all
  ultimately show ?thesis by simp
qed

lemma askPick_state:
  "askPick env step st inputs = Declined st' rest \<Longrightarrow> \<exists>c. st' = st\<lparr>counter := c\<rparr>"
  "askPick env step st inputs = Accepted st' sel rest \<Longrightarrow> \<exists>c. st' = st\<lparr>counter := c\<rparr>"
  by (auto simp: askPick_def split: list.splits moved.splits if_splits)

lemma askInput_state:
  "askInput env step st inputs = Declined st' rest \<Longrightarrow> \<exists>c. st' = st\<lparr>counter := c\<rparr>"
  "askInput env step st inputs = Accepted st' sel rest \<Longrightarrow> \<exists>c. st' = st\<lparr>counter := c\<rparr>"
  by (auto simp: askInput_def split: list.splits moved.splits if_splits)

lemma shaped_applyOrPopConfirm:
  assumes "subcommand st = Some ''apply'' \<or> subcommand st = Some ''pop''"
  shows "shaped env (applyOrPopConfirm env sc r s st inputs)"
proof (cases "this_confirm env sc (confirm st)")
  case False
  have "opFits env (StashApply (path r) (stashName s) (subcommand st = Some ''pop'')) [] st"
    using assms unfolding opFits_def by simp
  from shaped_terminal[OF this] False show ?thesis
    by (simp add: applyOrPopConfirm_def)
next
  case True
  let ?step = "applyOrPopConfirmStep env r s st"
  show ?thesis
  proof (cases "askPick env ?step st inputs")
    case (Accepted st1 sel rest)
    then obtain c where st1: "st1 = st\<lparr>counter := c\<rparr>" by (auto dest: askPick_state)
    show ?thesis
    proof (cases "selectedCommand ?step sel")
      case None
      with True Accepted show ?thesis
        by (simp add: applyOrPopConfirm_def Let_def shaped_yields)
    next
      case (Some command)
      then have cmd: "command = ''apply'' \<or> command = ''pop''"
        using assms
        by (auto simp: selectedCommand_def chosen_def itemsOf_def applyOrPopConfirmStep_def Let_def
            split: response.splits if_splits item.splits)
      then have "opFits env (StashApply (path r) (stashName s) (command = ''pop'')) []
                   (st1\<lparr>subcommand := Some command\<rparr>)"
        unfolding opFits_def by auto
      from shaped_prepend[OF shaped_terminal[OF this], of "[Yield ?step]"]
      show ?thesis using True Accepted Some
        by (simp add: applyOrPopConfirm_def Let_def)
    qed
  qed (use True in \<open>simp_all add: applyOrPopConfirm_def Let_def shaped_yields\<close>)
qed

lemma shaped_dropConfirm:
  assumes "subcommand st = Some ''drop''"
  shows "shaped env (dropConfirm env r s st inputs)"
proof -
  let ?step = "dropConfirmStep env r s st"
  show ?thesis
  proof (cases "askPick env ?step st inputs")
    case (Accepted st1 sel rest)
    then obtain c where st1: "st1 = st\<lparr>counter := c\<rparr>" by (auto dest: askPick_state)
    have run: "dropConfirm env r s st inputs
          = ([Yield ?step] @ [Call (StashDelete (path r) (stashName s))], st1, rest,
             Throw (raisedBy env (StashDelete (path r) (stashName s))))"
      using Accepted by (simp add: dropConfirm_def Let_def terminal_def raisedBy_def)
    have "\<exists>ys' r' s' st0. [Yield ?step] = ys' @ [Yield (dropConfirmStep env r' s' st0)]
            \<and> path r' = path r \<and> stashName s' = stashName s"
      by (intro exI[where x = "[]"] exI[where x = r] exI[where x = s] exI[where x = st]) simp
    then have "opFits env (StashDelete (path r) (stashName s)) [Yield ?step] st1"
      using assms st1 unfolding opFits_def by simp
    then show ?thesis unfolding run
      by (intro shaped_call[where ys = "[Yield ?step]"]) simp_all
  qed (simp_all add: dropConfirm_def Let_def shaped_yields)
qed

lemma shaped_pushConfirm:
  assumes "subcommand st = Some ''push''"
  shows "shaped env (pushConfirm env sc r m fl st inputs)"
proof (cases "this_confirm env sc (confirm st)")
  case False
  have "opFits env (StashSave (path r) m (uris st) (IncludeUntracked \<in> set fl) (KeepIndex \<in> set fl))
          [] st"
    using assms unfolding opFits_def by simp
  from shaped_terminal[OF this] False show ?thesis
    by (simp add: pushConfirm_def)
next
  case True
  let ?step = "pushConfirmStep env r m fl st"
  show ?thesis
  proof (cases "askPick env ?step st inputs")
    case (Accepted st1 sel rest)
    then obtain c where st1: "st1 = st\<lparr>counter := c\<rparr>" by (auto dest: askPick_state)
    show ?thesis
    proof (cases "selectedFlags ?step sel")
      case None
      with True Accepted show ?thesis
        by (simp add: pushConfirm_def Let_def shaped_yields)
    next
      case (Some fl')
      have "opFits env (StashSave (path r) m (uris st1) (IncludeUntracked \<in> set fl')
                          (KeepIndex \<in> set fl')) [] (st1\<lparr>flags := Some fl'\<rparr>)"
        using assms st1 unfolding opFits_def by simp
      from shaped_prepend[OF shaped_terminal[OF this], of "[Yield ?step]"]
      show ?thesis using True Accepted Some
        by (simp add: pushConfirm_def Let_def)
    qed
  qed (use True in \<open>simp_all add: pushConfirm_def Let_def shaped_yields\<close>)
qed

lemma shaped_askStash:
  assumes "\<And>s st1 ins. subcommand st1 = subcommand st \<Longrightarrow> shaped env (k s st1 ins)"
  shows "shaped env (askStash env ph r st inputs k)"
proof -
  let ?step = "stashPickStep env ph r st"
  show ?thesis
  proof (cases "askPick env ?step st inputs")
    case (Accepted st1 sel rest)
    then obtain c where st1: "st1 = st\<lparr>counter := c\<rparr>" by (auto dest: askPick_state)
    show ?thesis
    proof (cases "selectedCommit ?step sel")
      case None
      with Accepted show ?thesis by (simp add: askStash_def Let_def shaped_yields)
    next
      case (Some cm)
      have "shaped env (k cm (st1\<lparr>stash := Some cm\<rparr>) rest)"
        by (rule assms) (simp add: st1)
      from shaped_prepend[OF this, of "[Yield ?step]"] Accepted Some show ?thesis
        by (simp add: askStash_def Let_def)
    qed
  qed (simp_all add: askStash_def Let_def shaped_yields)
qed

lemma shaped_pickStash:
  assumes "\<And>s st1 ins. subcommand st1 = subcommand st \<Longrightarrow> shaped env (k s st1 ins)"
  shows "shaped env (pickStash env ph r st inputs k)"
proof (cases "stash st")
  case None
  then show ?thesis using shaped_askStash[OF assms] by (simp add: pickStash_def)
next
  case (Some s)
  show ?thesis
  proof (cases "counter st < 3")
    case True
    with Some show ?thesis using shaped_askStash[OF assms] by (simp add: pickStash_def)
  next
    case False
    with Some show ?thesis using assms[of st s inputs] by (simp add: pickStash_def)
  qed
qed

lemma shaped_applyOrPop:
  assumes "subcommand st = Some ''apply'' \<or> subcommand st = Some ''pop''"
  shows "shaped env (applyOrPop env sc r st inputs)"
  unfolding applyOrPop_def
  by (rule shaped_pickStash) (rule shaped_applyOrPopConfirm, use assms in simp)

lemma shaped_stash_drop:
  assumes "subcommand st = Some ''drop''"
  shows "shaped env (stash_drop env r st inputs)"
  unfolding stash_drop_def
  by (rule shaped_pickStash) (rule shaped_dropConfirm, use assms in simp)

lemma shaped_stash_list:
  "subcommand st = Some ''list'' \<Longrightarrow> shaped env (stash_list env r p st inputs)"
proof (induction env r p st inputs rule: stash_list.induct)
  case (1 env r p st inputs)
  let ?step = "listPickStep env r p st"
  note unfold = stash_list.simps[of env r p st inputs] Let_def
  show ?case
  proof (cases "askPick env ?step st inputs")
    case (Accepted st1 sel rest1)
    then obtain c1 where st1: "st1 = st\<lparr>counter := c1\<rparr>" by (auto dest: askPick_state)
    show ?thesis
    proof (cases "selectedCommit ?step sel")
      case None
      with Accepted show ?thesis by (simp add: unfold shaped_yields)
    next
      case (Some cm)
      let ?step2 = "listActionStep env r cm st1"
      show ?thesis
      proof (cases "askPick env ?step2 st1 rest1")
        case D: (Declined st2 rest2)
        then obtain c2 where st2: "st2 = st1\<lparr>counter := c2\<rparr>" by (auto dest: askPick_state)
        have "shaped env (stash_list env r (Some cm) st2 rest2)"
          by (rule "1.IH"(1)[OF refl Accepted Some refl D]) (simp add: st2 st1 "1.prems")
        from shaped_prepend[OF this, of "[Yield ?step, Yield ?step2]"] Accepted Some D
        show ?thesis by (simp add: unfold)
      next
        case A: (Accepted st2 sel2 rest2)
        then obtain c2 where st2: "st2 = st1\<lparr>counter := c2\<rparr>" by (auto dest: askPick_state)
        show ?thesis
        proof (cases "commandQuickPickItem ?step2 sel2")
          case None
          have "shaped env (stash_list env r (Some cm) st2 rest2)"
            by (rule "1.IH"(2)[OF refl Accepted Some refl A None]) (simp add: st2 st1 "1.prems")
          from shaped_prepend[OF this, of "[Yield ?step, Yield ?step2]"] Accepted Some A None
          show ?thesis by (simp add: unfold)
        next
          case (Some cmd)
          have "opFits env (Execute cmd) [] st2"
            unfolding opFits_def by (simp add: st2 st1 "1.prems")
          from shaped_prepend[OF shaped_terminal[OF this], of "[Yield ?step, Yield ?step2]"]
            Accepted \<open>selectedCommit ?step sel = Some cm\<close> A Some
          show ?thesis by (simp add: unfold)
        qed
      qed (use Accepted Some in \<open>simp_all add: unfold shaped_yields\<close>)
    qed
  qed (simp_all add: unfold shaped_yields)
qed

lemma shaped_askMessage:
  assumes "subcommand st = Some ''push''"
  shows "shaped env (askMessage env sc r fl st inputs)"
proof -
  let ?step = "pushInputStep env r st"
  show ?thesis
  proof (cases "askInput env ?step st inputs")
    case (Accepted st1 v rest)
    then obtain c where st1: "st1 = st\<lparr>counter := c\<rparr>" by (auto dest: askInput_state)
    show ?thesis
    proof (cases "typedValue v")
      case None
      with Accepted show ?thesis by (simp add: askMessage_def Let_def shaped_yields)
    next
      case (Some m)
      have "shaped env (pushConfirm env sc r m fl (st1\<lparr>push_message := Some m\<rparr>) rest)"
        by (rule shaped_pushConfirm) (simp add: st1 assms)
      from shaped_prepend[OF this, of "[Yield ?step]"] Accepted Some show ?thesis
        by (simp add: askMessage_def Let_def)
    qed
  qed (simp_all add: askMessage_def Let_def shaped_yields)
qed

lemma shaped_stash_push:
  assumes "subcommand st = Some ''push''"
  shows "shaped env (stash_push env sc r st inputs)"
proof -
  let ?fl = "case flags st of None \<Rightarrow> [] | Some f \<Rightarrow> f"
  let ?st = "st\<lparr>flags := Some ?fl\<rparr>"
  have sc: "subcommand ?st = Some ''push''" using assms by simp
  show ?thesis
  proof (cases "push_message st")
    case None
    then show ?thesis using shaped_askMessage[OF sc, of env sc r ?fl inputs]
      by (simp add: stash_push_def Let_def)
  next
    case (Some m)
    show ?thesis
    proof (cases "counter st < 3")
      case True
      with Some show ?thesis using shaped_askMessage[OF sc, of env sc r ?fl inputs]
        by (simp add: stash_push_def Let_def)
    next
      case False
      with Some show ?thesis using shaped_pushConfirm[OF sc, of env sc r m ?fl inputs]
        by (simp add: stash_push_def Let_def)
    qed
  qed
qed

lemma pickSubcommand_yields:
  assumes "pickSubcommand env st inputs = (evs, st', rest, c)"
  shows "\<forall>e \<in> set evs. isYield e"
  using assms
  by (auto simp: pickSubcommand_def Let_def split: if_splits asked.splits option.splits)

lemma pickRepository_yields:
  assumes "pickRepository env st inputs = (evs, st', rest, c)"
  shows "(\<forall>e \<in> set evs. isYield e) \<and> subcommand st' = subcommand st"
  using assms
  by (auto simp: pickRepository_def Let_def
      split: if_splits asked.splits option.splits list.splits dest!: askPick_state)

lemma shaped_dispatch: "shaped env (dispatch env sc st inputs)"
proof (cases "repo st")
  case None
  then show ?thesis by (simp add: dispatch_def withRepo_def shaped_yields)
next
  case (Some r)
  then show ?thesis
    by (simp add: dispatch_def withRepo_def shaped_yields shaped_applyOrPop shaped_stash_drop
        shaped_stash_list shaped_stash_push)
qed

lemma shaped_tryBlock: "shaped env (tryBlock env st inputs)"
proof -
  obtain evs st' rest c where tb: "tryBlock env st inputs = (evs, st', rest, c)"
    by (cases "tryBlock env st inputs") auto
  have "shaped env (evs, st', rest, c)"
    using tb unfolding tryBlock_def
  proof (cases rule: andThen_cases)
    case stop
    from pickSubcommand_yields[OF stop(1)] show ?thesis by (rule shaped_yields)
  next
    case (go evs0 st0 rest0 evs1)
    note y0 = pickSubcommand_yields[OF go(1)]
    from go(2)[unfolded Let_def] have "shaped env (evs1, st', rest, c)"
    proof (cases rule: andThen_cases)
      case stop
      from pickRepository_yields[OF stop(1)] show ?thesis by (intro shaped_yields) simp
    next
      case (go evs2 st2 rest2 evs3)
      note y2 = pickRepository_yields[OF go(1)]
      from go(2) have "shaped env (evs3, st', rest, c)"
      proof (cases rule: andThen_cases)
        case stop
        with shaped_dispatch[of env "subcommand st0" st2 rest2] show ?thesis by simp
      next
        case (go evs4 st4 rest4 evs5)
        from shaped_dispatch[of env "subcommand st0" st2 rest2] go(1)
        have "shaped env (evs4, st4, rest4, Normal)" by simp
        then have "\<forall>e \<in> set evs4. isYield e"
          by (cases rule: shaped_cases) simp_all
        moreover from go(2) have "evs5 = []" by (simp add: afterChain_def)
        ultimately show ?thesis using go(3) by (intro shaped_yields) simp
      qed
      from shaped_prepend[OF this, of evs2] y2 go(3) show ?thesis by simp
    qed
    from shaped_prepend[OF this, of evs0] y0 go(3) show ?thesis by simp
  qed
  with tb show ?thesis by simp
qed

lemma catch_quiet: "\<forall>e \<in> set (fst (catch st ex)). \<not> isYield e \<and> \<not> isCall e"
  by (cases ex) (simp_all add: catch_def Let_def)

text \<open>
  A run of the sequencer either issues no terminal call, or it is yields, one terminal
  call, and what the handler does with the exception of that call.
\<close>

lemma steps_loop_shape:
  "steps_loop env st inputs = (evs, st', out) \<Longrightarrow>
   (\<forall>e \<in> set evs. \<not> isCall e)
   \<or> (\<exists>ys op. evs = ys @ Call op # fst (catch st' (raisedBy env op))
         \<and> (\<forall>e \<in> set ys. isYield e)
         \<and> out = snd (catch st' (raisedBy env op))
         \<and> opFits env op ys st')"
proof (induction env st inputs arbitrary: evs st' out rule: steps_loop.induct)
  case (1 env st inputs)
  obtain evs1 st1 rest1 c where tb: "tryBlock env st inputs = (evs1, st1, rest1, c)"
    by (cases "tryBlock env st inputs") auto
  from shaped_tryBlock[of env st inputs] have sh: "shaped env (evs1, st1, rest1, c)"
    by (simp add: tb)
  have quiet: "\<forall>e \<in> set evs1. isYield e \<Longrightarrow> \<forall>e \<in> set evs1. \<not> isCall e"
  proof
    fix e assume "\<forall>e \<in> set evs1. isYield e" "e \<in> set evs1"
    then have "isYield e" by simp
    then show "\<not> isCall e" by (cases e) simp_all
  qed
  from sh show ?case
  proof (cases rule: shaped_cases)
    case (call ys op)
    from steps_loop_Throw[OF tb[unfolded call(3)]] "1.prems"
    have "evs = evs1 @ fst (catch st1 (raisedBy env op))" "st' = st1"
      "out = snd (catch st1 (raisedBy env op))" by simp_all
    with call have "evs = ys @ Call op # fst (catch st' (raisedBy env op))
         \<and> (\<forall>e \<in> set ys. isYield e)
         \<and> out = snd (catch st' (raisedBy env op))
         \<and> opFits env op ys st'" by simp
    then show ?thesis by blast
  next
    case yields
    note q = quiet[OF yields]
    show ?thesis
    proof (cases c)
      case Normal
      with tryBlock_shorter[OF tb] show ?thesis by simp
    next
      case Continue
      obtain evs2 st2 out2 where rec: "steps_loop env st1 rest1 = (evs2, st2, out2)"
        by (cases "steps_loop env st1 rest1") auto
      from steps_loop_Continue[OF tb[unfolded Continue]] "1.prems" rec
      have eq: "evs = evs1 @ evs2" "st' = st2" "out = out2" by simp_all
      from "1.IH"(2)[OF tb[symmetric] refl refl Continue rec]
      show ?thesis
      proof
        assume "\<forall>e \<in> set evs2. \<not> isCall e"
        with q eq have "\<forall>e \<in> set evs. \<not> isCall e" by auto
        then show ?thesis ..
      next
        assume "\<exists>ys op. evs2 = ys @ Call op # fst (catch st2 (raisedBy env op))
           \<and> (\<forall>e \<in> set ys. isYield e)
           \<and> out2 = snd (catch st2 (raisedBy env op))
           \<and> opFits env op ys st2"
        then obtain ys op where *: "evs2 = ys @ Call op # fst (catch st2 (raisedBy env op))"
          "\<forall>e \<in> set ys. isYield e" "out2 = snd (catch st2 (raisedBy env op))"
          "opFits env op ys st2" by blast
        have "evs = (evs1 @ ys) @ Call op # fst (catch st' (raisedBy env op))"
          using eq * by simp
        moreover have "\<forall>e \<in> set (evs1 @ ys). isYield e" using yields * by auto
        moreover have "opFits env op (evs1 @ ys) st'" using * eq by (simp add: opFits_prefix)
        ultimately have "\<exists>ys' op'. evs = ys' @ Call op' # fst (catch st' (raisedBy env op'))
           \<and> (\<forall>e \<in> set ys'. isYield e)
           \<and> out = snd (catch st' (raisedBy env op'))
           \<and> opFits env op' ys' st'" using * eq by blast
        then show ?thesis ..
      qed
    next
      case Break
      from steps_loop_Break[OF tb[unfolded Break]] "1.prems" q show ?thesis by auto
    next
      case Return
      from steps_loop_Return[OF tb[unfolded Return]] "1.prems" q show ?thesis by auto
    next
      case Suspend
      from steps_loop_Suspend[OF tb[unfolded Suspend]] "1.prems" q show ?thesis by auto
    next
      case IllTyped
      from steps_loop_IllTyped[OF tb[unfolded IllTyped]] "1.prems" q show ?thesis by auto
    next
      case (Throw ex)
      from steps_loop_Throw[OF tb[unfolded Throw]] "1.prems"
      have "evs = evs1 @ fst (catch st1 ex)" by simp
      with q catch_quiet[of st1 ex] have "\<forall>e \<in> set evs. \<not> isCall e" by auto
      then show ?thesis ..
    qed
  qed
qed

lemma single_call:
  assumes "ys @ Call op # hs = pre @ Call op' # post"
    and "\<forall>e \<in> set ys. isYield e" and "\<forall>e \<in> set hs. \<not> isCall e"
  shows "pre = ys \<and> op' = op \<and> post = hs"
  using assms
proof (induction ys arbitrary: pre)
  case Nil
  show ?case
  proof (cases pre)
    case Nil
    with Nil.prems show ?thesis by simp
  next
    case (Cons x pre')
    with Nil.prems have "hs = pre' @ Call op' # post" by simp
    then have "Call op' \<in> set hs" by simp
    with Nil.prems(3) have "\<not> isCall (Call op')" by blast
    then show ?thesis by simp
  qed
next
  case (Cons y ys)
  show ?case
  proof (cases pre)
    case Nil
    with Cons.prems(1) have "y = Call op'" by simp
    with Cons.prems(2) show ?thesis by simp
  next
    case (Cons x pre')
    with Cons.prems(1) have "x = y" "ys @ Call op # hs = pre' @ Call op' # post" by simp_all
    with Cons.IH[of pre'] Cons.prems(2,3) Cons show ?thesis by simp
  qed
qed

text \<open>
  The run of the sequencer around a terminal call: the events before it are yields, the
  events after it are those of the handler on the exception of the call, and the outcome is
  the one of the handler.
\<close>

lemma steps_around_call:
  assumes "events (steps env a inputs) = pre @ Call op # post"
  shows "(\<forall>e \<in> set pre. isYield e)
         \<and> post = fst (catch (final (steps env a inputs)) (raisedBy env op))
         \<and> outcome (steps env a inputs) = snd (catch (final (steps env a inputs)) (raisedBy env op))
         \<and> opFits env op pre (final (steps env a inputs))"
proof -
  let ?st = "case initialState a of None \<Rightarrow> emptyState | Some st \<Rightarrow> st"
  obtain evs st' out where run: "steps_loop env ?st inputs = (evs, st', out)"
    by (cases "steps_loop env ?st inputs") auto
  then have ev: "evs = pre @ Call op # post" and fin: "final (steps env a inputs) = st'"
    and out: "outcome (steps env a inputs) = out"
    using assms by (simp_all add: steps_def events_def final_def outcome_def)
  from steps_loop_shape[OF run] show ?thesis
  proof
    assume "\<forall>e \<in> set evs. \<not> isCall e"
    with ev have "\<not> isCall (Call op)" by simp
    then show ?thesis by simp
  next
    assume "\<exists>ys op. evs = ys @ Call op # fst (catch st' (raisedBy env op))
         \<and> (\<forall>e \<in> set ys. isYield e)
         \<and> out = snd (catch st' (raisedBy env op))
         \<and> opFits env op ys st'"
    then obtain ys op0 where *: "evs = ys @ Call op0 # fst (catch st' (raisedBy env op0))"
      "\<forall>e \<in> set ys. isYield e" "out = snd (catch st' (raisedBy env op0))"
      "opFits env op0 ys st'" by blast
    have "\<forall>e \<in> set (fst (catch st' (raisedBy env op0))). \<not> isCall e"
      using catch_quiet[of st' "raisedBy env op0"] by blast
    from single_call[OF *(1)[unfolded ev, symmetric] *(2) this]
    have "pre = ys" "op = op0" "post = fst (catch st' (raisedBy env op0))" by simp_all
    with * fin out show ?thesis by simp
  qed
qed


text \<open>
  C3.  In every run of the wizard, once a terminal call is issued, no step is yielded and
  no second terminal call is issued: what follows is what the handler does with the
  exception that the statement of the call completed with.  When the call returns, that
  exception is the break signal, the handler reports nothing, and the generator returns.
  In each chain, entered with its tag, a terminal call is the last event and the chain
  completes by throwing.
\<close>

definition breaksAfter :: "env \<Rightarrow> result \<Rightarrow> bool" where
  "breaksAfter env res =
     (\<forall>op. Call op \<in> set (fst res) \<longrightarrow>
        (\<exists>ys. fst res = ys @ [Call op] \<and> (\<forall>e \<in> set ys. isYield e))
        \<and> snd (snd (snd res)) = Throw (raisedBy env op))"

lemma shaped_breaksAfter:
  assumes "shaped env res"
  shows "breaksAfter env res"
proof (cases res)
  case (fields evs st rest c)
  from assms[unfolded fields] show ?thesis
  proof (cases rule: shaped_cases)
    case yields
    have "\<And>op. Call op \<notin> set evs"
    proof
      fix op assume "Call op \<in> set evs"
      with yields have "isYield (Call op)" by blast
      then show False by simp
    qed
    then show ?thesis unfolding breaksAfter_def fields by simp
  next
    case (call ys op)
    have "\<And>op'. Call op' \<in> set evs \<Longrightarrow> op' = op"
    proof -
      fix op' assume "Call op' \<in> set evs"
      with call(1) have "Call op' \<in> set ys \<or> op' = op" by auto
      moreover have "Call op' \<notin> set ys"
      proof
        assume "Call op' \<in> set ys"
        with call(2) have "isYield (Call op')" by blast
        then show False by simp
      qed
      ultimately show "op' = op" by blast
    qed
    then show ?thesis unfolding breaksAfter_def fields using call by auto
  qed
qed

theorem C3_break_after_terminal:
  "(events (steps env a inputs) = pre @ Call op # post \<longrightarrow>
      (\<forall>e \<in> set post. \<not> isYield e \<and> \<not> isCall e)
      \<and> outcome (steps env a inputs) \<noteq> Suspended
      \<and> (fails env op = None \<longrightarrow> post = [] \<and> outcome (steps env a inputs) = Finished))
   \<and> (fails env op = None \<longrightarrow> raisedBy env op = BreakQuickCommand)
   \<and> catch st BreakQuickCommand = ([], Finished)
   \<and> (subcommand st = Some ''apply'' \<or> subcommand st = Some ''pop'' \<longrightarrow>
        breaksAfter env (applyOrPop env sc r st inputs))
   \<and> (subcommand st = Some ''drop'' \<longrightarrow> breaksAfter env (stash_drop env r st inputs))
   \<and> (subcommand st = Some ''list'' \<longrightarrow> breaksAfter env (stash_list env r picked st inputs))
   \<and> (subcommand st = Some ''push'' \<longrightarrow> breaksAfter env (stash_push env sc r st inputs))"
proof -
  have run: "events (steps env a inputs) = pre @ Call op # post \<longrightarrow>
      (\<forall>e \<in> set post. \<not> isYield e \<and> \<not> isCall e)
      \<and> outcome (steps env a inputs) \<noteq> Suspended
      \<and> (fails env op = None \<longrightarrow> post = [] \<and> outcome (steps env a inputs) = Finished)"
  proof
    assume "events (steps env a inputs) = pre @ Call op # post"
    from steps_around_call[OF this]
    have post: "post = fst (catch (final (steps env a inputs)) (raisedBy env op))"
      and out: "outcome (steps env a inputs)
                  = snd (catch (final (steps env a inputs)) (raisedBy env op))"
      by simp_all
    have "\<forall>e \<in> set post. \<not> isYield e \<and> \<not> isCall e"
      unfolding post by (rule catch_quiet)
    moreover have "outcome (steps env a inputs) \<noteq> Suspended"
      unfolding out by (cases "raisedBy env op") (simp_all add: catch_def Let_def)
    moreover have "fails env op = None \<longrightarrow> post = [] \<and> outcome (steps env a inputs) = Finished"
      unfolding post out by (simp add: raisedBy_def catch_def)
    ultimately show "(\<forall>e \<in> set post. \<not> isYield e \<and> \<not> isCall e)
      \<and> outcome (steps env a inputs) \<noteq> Suspended
      \<and> (fails env op = None \<longrightarrow> post = [] \<and> outcome (steps env a inputs) = Finished)"
      by blast
  qed
  have "fails env op = None \<longrightarrow> raisedBy env op = BreakQuickCommand"
    by (simp add: raisedBy_def)
  moreover have "catch st BreakQuickCommand = ([], Finished)"
    by (simp add: catch_def)
  moreover have "subcommand st = Some ''apply'' \<or> subcommand st = Some ''pop'' \<longrightarrow>
        breaksAfter env (applyOrPop env sc r st inputs)"
    using shaped_breaksAfter[OF shaped_applyOrPop] by blast
  moreover have "subcommand st = Some ''drop'' \<longrightarrow> breaksAfter env (stash_drop env r st inputs)"
    using shaped_breaksAfter[OF shaped_stash_drop] by blast
  moreover have "subcommand st = Some ''list'' \<longrightarrow>
        breaksAfter env (stash_list env r picked st inputs)"
    using shaped_breaksAfter[OF shaped_stash_list] by blast
  moreover have "subcommand st = Some ''push'' \<longrightarrow> breaksAfter env (stash_push env sc r st inputs)"
    using shaped_breaksAfter[OF shaped_stash_push] by blast
  ultimately show ?thesis using run by blast
qed

section \<open>Runs in the reference environment\<close>

lemmas run_defs =
  initialState_def initialCounter_def argsFor_def noState_def
  partial_state.extend_def state.fields_def emptyState_def
  tryBlock_def andThen_def pickSubcommand_def pickRepository_def dispatch_def withRepo_def
  afterChain_def askPick_def askInput_def
  applyOrPop_def pickStash_def askStash_def applyOrPopConfirm_def stash_drop_def dropConfirm_def
  stash_push_def askMessage_def pushConfirm_def terminal_def this_confirm_def
  canConfirm_def canSkipConfirm_def skipConfirmKey_def
  itemsOf_def chosen_def
  selectedSubcommand_def selectedRepository_def selectedCommit_def selectedCommand_def
  selectedFlags_def typedValue_def commandQuickPickItem_def
  refEnv_def specMoveNext_def specConfirm_def succeeding_def failingWith_def
  catch_def Let_def

lemmas step_defs =
  subcommandStep_def repositoryStep_def stashPickStep_def listPickStep_def
  listActionStep_def applyOrPopConfirmStep_def dropConfirmStep_def pushInputStep_def
  pushConfirmStep_def chainTitle_def title_def label_def key_def getSubtitle_def
  subcommandToSubtitleMap_def templ_def truncated_def stashedFiles_def
  repoA_def repoB_def stash0_def stash1_def numeral_2_eq_2

definition dropRunEnv :: env where
  "dropRunEnv = refEnv [] [repoA] (Some [stash0, stash1]) succeeding"

definition dropRunArgs :: StashGitCommandArgs where
  "dropRunArgs = argsFor (noState\<lparr>subcommand := Some ''drop''\<rparr>)"

definition dropRunInputs :: "response list" where
  "dropRunInputs =
     [Selected (CommitQuickPickItem stash1 False),
      Selected (ConfirmItem ''Stash Drop'' ''stash-1  -  older'' ''Will delete stash-1'' None)]"

lemma drop_run:
  "steps dropRunEnv (Some dropRunArgs) dropRunInputs
   = ([Yield (PickStep ''Stash Drop  .  A'' ''Choose a stash to delete''
               [CommitQuickPickItem stash0 False, CommitQuickPickItem stash1 False]),
       Yield (ConfirmStep ''Confirm Stash Drop  .  A''
               [ConfirmItem ''Stash Drop'' ''stash-1  -  older'' ''Will delete stash-1'' None]
               ''Confirm Stash Drop''),
       Call (StashDelete ''/a'' ''stash-1'')],
      \<lparr>subcommand = Some ''drop'', repo = Some repoA, stash = Some stash1, push_message = None,
         uris = None, flags = None, counter = 4, confirm = None\<rparr>,
      Finished)"
  unfolding steps_def dropRunEnv_def dropRunArgs_def dropRunInputs_def
  apply (subst steps_loop.simps)
  apply (simp add: run_defs step_defs)
  done


lemma drop_chain_run:
  "stash_drop dropRunEnv repoA
     \<lparr>subcommand = Some ''drop'', repo = Some repoA, stash = None, push_message = None,
        uris = None, flags = None, counter = 2, confirm = None\<rparr> dropRunInputs
   = ([Yield (PickStep ''Stash Drop  .  A'' ''Choose a stash to delete''
               [CommitQuickPickItem stash0 False, CommitQuickPickItem stash1 False]),
       Yield (ConfirmStep ''Confirm Stash Drop  .  A''
               [ConfirmItem ''Stash Drop'' ''stash-1  -  older'' ''Will delete stash-1'' None]
               ''Confirm Stash Drop''),
       Call (StashDelete ''/a'' ''stash-1'')],
      \<lparr>subcommand = Some ''drop'', repo = Some repoA, stash = Some stash1, push_message = None,
         uris = None, flags = None, counter = 4, confirm = None\<rparr>,
      [], Throw BreakQuickCommand)"
  unfolding dropRunEnv_def dropRunInputs_def
  by (simp add: run_defs step_defs)

theorem C3_break_after_terminal_witness:
  "outcome (steps dropRunEnv (Some dropRunArgs) dropRunInputs) = Finished
   \<and> snd (snd (snd (stash_drop dropRunEnv repoA
        \<lparr>subcommand = Some ''drop'', repo = Some repoA, stash = None, push_message = None,
           uris = None, flags = None, counter = 2, confirm = None\<rparr> dropRunInputs)))
       = Throw BreakQuickCommand"
proof -
  let ?st = "\<lparr>subcommand = Some ''drop'', repo = Some repoA, stash = None, push_message = None,
           uris = None, flags = None, counter = 2, confirm = None\<rparr>"
  let ?op = "StashDelete ''/a'' ''stash-1''"
  note inst = C3_break_after_terminal
    [where env = dropRunEnv and a = "Some dropRunArgs" and inputs = dropRunInputs
       and op = "?op" and post = "[]" and st = "?st" and r = repoA
       and pre = "[Yield (PickStep ''Stash Drop  .  A'' ''Choose a stash to delete''
               [CommitQuickPickItem stash0 False, CommitQuickPickItem stash1 False]),
       Yield (ConfirmStep ''Confirm Stash Drop  .  A''
               [ConfirmItem ''Stash Drop'' ''stash-1  -  older'' ''Will delete stash-1'' None]
               ''Confirm Stash Drop'')]"]
  have ok: "fails dropRunEnv ?op = None"
    by (simp add: dropRunEnv_def refEnv_def succeeding_def)
  have called: "Call ?op \<in> set (fst (stash_drop dropRunEnv repoA ?st dropRunInputs))"
    by (simp add: drop_chain_run)
  from inst ok have "outcome (steps dropRunEnv (Some dropRunArgs) dropRunInputs) = Finished"
    by (simp add: drop_run events_def)
  moreover from inst have "breaksAfter dropRunEnv (stash_drop dropRunEnv repoA ?st dropRunInputs)"
    by simp
  with called have "snd (snd (snd (stash_drop dropRunEnv repoA ?st dropRunInputs)))
      = Throw (raisedBy dropRunEnv ?op)"
    unfolding breaksAfter_def by blast
  with ok have "snd (snd (snd (stash_drop dropRunEnv repoA ?st dropRunInputs)))
      = Throw BreakQuickCommand"
    by (simp add: raisedBy_def)
  ultimately show ?thesis by simp
qed

section \<open>Failures of apply and pop\<close>

definition overwrittenByMerge :: string where
  "overwrittenByMerge = ''Your local changes to the following files would be overwritten by merge''"

text \<open>
  What the handler does in a run when the call of \<open>StashApply\<close> itself raises an
  exception with the description \<open>m\<close>: it logs it and shows one message, and the
  generator returns.  The message is the warning when \<open>m\<close> contains the sentence about
  local changes; otherwise the information about conflicts when \<open>m\<close> contains both
  \<^verbatim>\<open>Auto-merging\<close> and \<^verbatim>\<open>CONFLICT\<close>; otherwise the generic failure message.
\<close>

lemma raised_apply_classified:
  assumes "events (steps env a inputs) = pre @ Call (StashApply p n remove) # post"
    and "fails env (StashApply p n remove) = Some m"
  shows "outcome (steps env a inputs) = Finished
         \<and> (\<exists>context. post =
               [LogError (Error m) context,
                (if str_includes m overwrittenByMerge
                 then ShowWarningMessage
                        ''Unable to apply stash. Your working tree changes would be overwritten''
                 else if str_includes m ''Auto-merging'' \<and> str_includes m ''CONFLICT''
                 then ShowInformationMessage ''Stash applied with conflicts''
                 else ShowGenericErrorMessage
                        (''Unable to apply stash '' @ emDash @ '' '' @ replaceLineFeeds (trim m)))])"
proof -
  let ?st = "final (steps env a inputs)"
  from steps_around_call[OF assms(1)]
  have post: "post = fst (catch ?st (raisedBy env (StashApply p n remove)))"
    and out: "outcome (steps env a inputs) = snd (catch ?st (raisedBy env (StashApply p n remove)))"
    and fits: "opFits env (StashApply p n remove) pre ?st"
    by simp_all
  from fits have tag: "subcommand ?st = Some ''apply'' \<or> subcommand ?st = Some ''pop''"
    unfolding opFits_def by simp
  have raised: "raisedBy env (StashApply p n remove) = Error m"
    using assms(2) by (simp add: raisedBy_def)
  from tag show ?thesis
    unfolding post out raised
    by (auto simp: catch_def Let_def overwrittenByMerge_def)
qed

definition applyRunArgs :: StashGitCommandArgs where
  "applyRunArgs = argsFor (noState\<lparr>subcommand := Some ''apply'', stash := Some stash0\<rparr>)"

definition applyConfirmStep0 :: step where
  "applyConfirmStep0 =
     ConfirmStep ''Confirm Stash Apply  .  A''
       [ConfirmItem ''Stash Apply'' ''stash-0  -  wip''
          ''Will apply the changes from stash-0 to the working tree of A'' (Some ''apply''),
        ConfirmItem ''Stash Pop'' ''stash-0  -  wip''
          ''Will delete stash-0 and apply the changes to the working tree of A'' (Some ''pop'')]
       ''Confirm Stash Apply''"

definition chooseApply :: response where
  "chooseApply =
     Selected (ConfirmItem ''Stash Apply'' ''stash-0  -  wip''
                 ''Will apply the changes from stash-0 to the working tree of A'' (Some ''apply''))"

definition localChangesMessage :: string where
  "localChangesMessage = ''error: '' @ overwrittenByMerge"

text \<open>
  The git service of this run returns a promise from \<open>StashApply\<close> and rejects it
  later, with the description about local changes.
\<close>

definition unawaitedEnv :: env where
  "unawaitedEnv =
     (refEnv [] [repoA] (Some [stash0]) succeeding)\<lparr>rejects := failingWith localChangesMessage\<rparr>"

lemma str_includes_append: "str_includes (xs @ pat) pat"
  by (induction xs) (simp_all, cases pat, simp_all)

lemma localChanges_includes:
  "str_includes localChangesMessage overwrittenByMerge"
  "str_includes localChangesMessage ''would be overwritten by merge''"
proof -
  show "str_includes localChangesMessage overwrittenByMerge"
    unfolding localChangesMessage_def by (rule str_includes_append)
  have "localChangesMessage
          = ''error: Your local changes to the following files '' @ ''would be overwritten by merge''"
    by (simp add: localChangesMessage_def overwrittenByMerge_def)
  then have "str_includes localChangesMessage ''would be overwritten by merge''
             = str_includes (''error: Your local changes to the following files ''
                               @ ''would be overwritten by merge'') ''would be overwritten by merge''"
    by (rule arg_cong)
  then show "str_includes localChangesMessage ''would be overwritten by merge''"
    using str_includes_append[of "''error: Your local changes to the following files ''"
                                 "''would be overwritten by merge''"]
    by (rule ssubst)
qed

text \<open>
  C2 (a defect of the code).  The claim has a failure of the apply operation whose
  description contains \<^verbatim>\<open>would be overwritten by merge\<close> end the wizard with a
  warning.  The source calls \<^verbatim>\<open>stashApply\<close> with \<^verbatim>\<open>void\<close> (line 438) and throws
  the break signal (line 440) without awaiting the promise.  In the run below the user
  confirms the apply, the call returns and its promise is rejected with a description that
  contains the sentence the handler looks for: the events of the run are the yield of the
  confirmation and the call, the generator returns, and no message is shown.
\<close>

theorem C2_unawaited_failure_unreported:
  "fails unawaitedEnv (StashApply ''/a'' ''stash-0'' False) = None
   \<and> rejects unawaitedEnv (StashApply ''/a'' ''stash-0'' False) = Some localChangesMessage
   \<and> str_includes localChangesMessage ''would be overwritten by merge''
   \<and> str_includes localChangesMessage overwrittenByMerge
   \<and> steps unawaitedEnv (Some applyRunArgs) [chooseApply]
       = ([Yield applyConfirmStep0, Call (StashApply ''/a'' ''stash-0'' False)],
          \<lparr>subcommand = Some ''apply'', repo = Some repoA, stash = Some stash0,
             push_message = None, uris = None, flags = None, counter = 4, confirm = None\<rparr>,
          Finished)"
proof -
  have run: "steps unawaitedEnv (Some applyRunArgs) [chooseApply]
       = ([Yield applyConfirmStep0, Call (StashApply ''/a'' ''stash-0'' False)],
          \<lparr>subcommand = Some ''apply'', repo = Some repoA, stash = Some stash0,
             push_message = None, uris = None, flags = None, counter = 4, confirm = None\<rparr>,
          Finished)"
    unfolding steps_def unawaitedEnv_def applyRunArgs_def chooseApply_def applyConfirmStep0_def
    apply (subst steps_loop.simps)
    apply (simp add: run_defs step_defs)
    done
  have calls: "fails unawaitedEnv (StashApply ''/a'' ''stash-0'' False) = None"
    "rejects unawaitedEnv (StashApply ''/a'' ''stash-0'' False) = Some localChangesMessage"
    by (simp_all add: unawaitedEnv_def refEnv_def succeeding_def failingWith_def)
  from run calls localChanges_includes show ?thesis by simp
qed

section \<open>The initial counter\<close>

text \<open>
  The three fields in step order, each with whether the partial state populates it.  The
  third is the stash for apply, drop and pop and the message for push; the other tags
  have no third field.
\<close>

definition populated :: "partial_state \<Rightarrow> bool list" where
  "populated p =
     [subcommand p \<noteq> None,
      repo p \<noteq> None,
      (if subcommand p = Some ''apply'' \<or> subcommand p = Some ''drop'' \<or> subcommand p = Some ''pop''
       then stash p \<noteq> None
       else if subcommand p = Some ''push'' then push_message p \<noteq> None
       else False)]"

text \<open>
  In the words of the spec: the number of leading fields of the supplied partial state
  that are populated.
\<close>

definition leadingPopulated :: "partial_state \<Rightarrow> nat" where
  "leadingPopulated p = length (takeWhile (\<lambda>b. b) (populated p))"

definition countPopulated :: "partial_state \<Rightarrow> nat" where
  "countPopulated p = length (filter (\<lambda>b. b) (populated p))"

lemma initialCounter_count: "initialCounter p = int (countPopulated p)"
  by (simp add: initialCounter_def countPopulated_def populated_def Let_def)

lemma leading_eq_count:
  assumes "repo p \<noteq> None \<longrightarrow> subcommand p \<noteq> None"
    and "populated p ! 2 \<longrightarrow> repo p \<noteq> None"
  shows "leadingPopulated p = countPopulated p"
  using assms by (simp add: leadingPopulated_def countPopulated_def populated_def)

text \<open>
  C6 (as amended).  When the wizard is invoked with a partial state, the initial state is
  that partial state with the confirm override of the invocation and a counter equal to
  the number of populated fields among the subcommand, the repository and the field of
  the subcommand (the stash for apply, drop and pop, the message for push), wherever they
  stand: a field that follows an unpopulated one is counted too.  The counter is the
  number of leading populated fields when the populated fields are leading ones.
\<close>

theorem C6_initial_counter:
  assumes "args_state a = Some p"
  shows "\<exists>st. initialState (Some a) = Some st
           \<and> counter st = int (countPopulated p)
           \<and> ((repo p \<noteq> None \<longrightarrow> subcommand p \<noteq> None) \<and> (populated p ! 2 \<longrightarrow> repo p \<noteq> None)
                \<longrightarrow> counter st = int (leadingPopulated p))
           \<and> partial_state.truncate st = p
           \<and> confirm st = args_confirm a"
proof -
  let ?st = "partial_state.extend p (state.fields (initialCounter p) (args_confirm a))"
  have "initialState (Some a) = Some ?st"
    using assms by (simp add: initialState_def)
  moreover have "counter ?st = int (countPopulated p)"
    by (simp add: partial_state.extend_def state.fields_def initialCounter_count)
  moreover have "partial_state.truncate ?st = p"
    by (simp add: partial_state.extend_def partial_state.truncate_def state.fields_def)
  moreover have "confirm ?st = args_confirm a"
    by (simp add: partial_state.extend_def state.fields_def)
  ultimately show ?thesis
    using leading_eq_count[of p] by auto
qed

theorem C6_initial_counter_witness:
  "\<exists>st. initialState (Some \<lparr>args_state = Some (noState\<lparr>subcommand := Some ''drop'', repo := Some repoA\<rparr>),
                               args_confirm = Some True\<rparr>) = Some st
        \<and> counter st = 2 \<and> confirm st = Some True"
  using C6_initial_counter
    [of "\<lparr>args_state = Some (noState\<lparr>subcommand := Some ''drop'', repo := Some repoA\<rparr>),
          args_confirm = Some True\<rparr>"
        "noState\<lparr>subcommand := Some ''drop'', repo := Some repoA\<rparr>"]
  by (auto simp: countPopulated_def populated_def noState_def)

text \<open>
  The claim as stated fails for a partial state that holds the repository only: no
  leading field is populated, and the counter is one.
\<close>

theorem C6_leading_counterexample:
  "map_option counter
     (initialState (Some \<lparr>args_state = Some (noState\<lparr>repo := Some repoA\<rparr>), args_confirm = None\<rparr>))
     = Some 1
   \<and> leadingPopulated (noState\<lparr>repo := Some repoA\<rparr>) = 0"
  by (simp add: initialState_def initialCounter_def leadingPopulated_def populated_def
      noState_def partial_state.extend_def state.fields_def Let_def)

section \<open>The error handler\<close>

fun isReport :: "event \<Rightarrow> bool" where
  "isReport (ShowWarningMessage m) = True"
| "isReport (ShowInformationMessage m) = True"
| "isReport (ShowErrorMessage m) = True"
| "isReport (ShowGenericErrorMessage m) = True"
| "isReport e = False"

definition reporting :: "string option \<Rightarrow> bool" where
  "reporting sc =
     (sc = Some ''apply'' \<or> sc = Some ''pop'' \<or> sc = Some ''drop'' \<or> sc = Some ''push'')"

lemma catch_Break: "catch st BreakQuickCommand = ([], Finished)"
  by (simp add: catch_def)

lemma catch_reporting:
  assumes "reporting (subcommand st)"
  shows "\<exists>report. isReport report
           \<and> catch st (Error m)
               = ([LogError (Error m) (title @ ''.'' @ templ (subcommand st)), report], Finished)"
  using assms by (auto simp: catch_def reporting_def Let_def)

lemma catch_rethrow:
  assumes "\<not> reporting (subcommand st)"
  shows "catch st (Error m)
           = ([LogError (Error m) (title @ ''.'' @ templ (subcommand st))], Raised (Error m))"
  using assms by (auto simp: catch_def reporting_def Let_def)

lemma catch_Raised:
  assumes "catch st ex = (evs, Raised ex')"
  shows "ex' = ex \<and> ex \<noteq> BreakQuickCommand \<and> \<not> reporting (subcommand st)"
proof (cases ex)
  case BreakQuickCommand
  with assms show ?thesis by (simp add: catch_def)
next
  case (Error m)
  show ?thesis
  proof (cases "reporting (subcommand st)")
    case True
    from catch_reporting[OF True, of m] assms Error show ?thesis by auto
  next
    case False
    from catch_rethrow[OF False, of m] assms Error False show ?thesis by auto
  qed
qed

lemma steps_loop_Raised:
  "steps_loop env st inputs = (evs, st', Raised ex) \<Longrightarrow>
   ex \<noteq> BreakQuickCommand \<and> \<not> reporting (subcommand st')"
proof (induction env st inputs arbitrary: evs rule: steps_loop.induct)
  case (1 env st inputs)
  obtain evs1 st1 rest1 c where tb: "tryBlock env st inputs = (evs1, st1, rest1, c)"
    by (cases "tryBlock env st inputs") auto
  note run = "1.prems"[unfolded steps_loop.simps[of env st inputs] tb, simplified]
  show ?case
  proof (cases c)
    case Normal
    with tryBlock_shorter[OF tb] show ?thesis by simp
  next
    case Continue
    obtain evs2 st2 out2 where rec: "steps_loop env st1 rest1 = (evs2, st2, out2)"
      by (cases "steps_loop env st1 rest1") auto
    with run Continue have "st2 = st'" "out2 = Raised ex" by auto
    with "1.IH"(2)[OF tb[symmetric] refl refl Continue] rec show ?thesis by auto
  next
    case (Throw e)
    obtain reported out where c: "catch st1 e = (reported, out)"
      by (cases "catch st1 e") auto
    with run Throw have "st1 = st'" "out = Raised ex" by auto
    with catch_Raised[of st1 e reported ex] c show ?thesis by auto
  qed (use run in auto)
qed

text \<open>
  C9 (as amended).  The break signal ends the wizard without a report.  Any other
  exception that reaches the handler is logged; while the tag is apply, pop, drop or push
  it is then reported to the user by one message and the wizard ends, and no such
  exception leaves the generator.  While the tag is list, unset or unrecognized the
  exception is raised again to the caller without a report.
\<close>

theorem C9_handler_classification:
  "catch st BreakQuickCommand = ([], Finished)
   \<and> (reporting (subcommand st) \<longrightarrow>
        (\<exists>report. isReport report
           \<and> catch st (Error m)
               = ([LogError (Error m) (title @ ''.'' @ templ (subcommand st)), report], Finished)))
   \<and> (\<not> reporting (subcommand st) \<longrightarrow>
        catch st (Error m)
          = ([LogError (Error m) (title @ ''.'' @ templ (subcommand st))], Raised (Error m)))
   \<and> (outcome (steps env a inputs) = Raised ex \<longrightarrow>
        ex \<noteq> BreakQuickCommand \<and> \<not> reporting (subcommand (final (steps env a inputs))))"
proof -
  have "outcome (steps env a inputs) = Raised ex \<longrightarrow>
        ex \<noteq> BreakQuickCommand \<and> \<not> reporting (subcommand (final (steps env a inputs)))"
  proof
    assume r: "outcome (steps env a inputs) = Raised ex"
    let ?st = "case initialState a of None \<Rightarrow> emptyState | Some st \<Rightarrow> st"
    obtain evs st' out where run: "steps_loop env ?st inputs = (evs, st', out)"
      by (cases "steps_loop env ?st inputs") auto
    with r have "out = Raised ex" by (simp add: steps_def outcome_def)
    with steps_loop_Raised[of env ?st inputs evs st' ex] run
    show "ex \<noteq> BreakQuickCommand \<and> \<not> reporting (subcommand (final (steps env a inputs)))"
      by (simp add: steps_def final_def)
  qed
  then show ?thesis
    using catch_reporting[of st m] catch_rethrow[of st m] by (auto simp: catch_Break)
qed

lemma list_action_fails_run:
  "steps (refEnv [] [repoA] (Some [stash0]) (failingWith ''boom''))
     (Some (argsFor (noState\<lparr>subcommand := Some ''list''\<rparr>)))
     [Selected (CommitQuickPickItem stash0 False), Selected (CommandQuickPickItem ''Show Details'')]
   = ([Yield (PickStep ''Stash List  .  A'' ''Choose a stash'' [CommitQuickPickItem stash0 False]),
       Yield (PickStep ''Stash List  .  A  .  abc'' ''0: wip''
                [CommandQuickPickItem ''Show Details'', OtherQuickPickItem ''Changed Files'']),
       Call (Execute ''Show Details''),
       LogError (Error ''boom'') ''Stash.list''],
      \<lparr>subcommand = Some ''list'', repo = Some repoA, stash = None, push_message = None,
         uris = None, flags = None, counter = 4, confirm = None\<rparr>,
      Raised (Error ''boom''))"
  unfolding steps_def
  apply (subst steps_loop.simps)
  apply (simp add: run_defs step_defs stash_list.simps)
  done

theorem C9_handler_classification_witness:
  "(\<exists>report. isReport report
      \<and> catch (emptyState\<lparr>subcommand := Some ''drop''\<rparr>) (Error ''boom'')
          = ([LogError (Error ''boom'') ''Stash.drop'', report], Finished))
   \<and> catch (emptyState\<lparr>subcommand := Some ''list''\<rparr>) (Error ''boom'')
        = ([LogError (Error ''boom'') ''Stash.list''], Raised (Error ''boom''))
   \<and> \<not> reporting (subcommand (final
          (steps (refEnv [] [repoA] (Some [stash0]) (failingWith ''boom''))
             (Some (argsFor (noState\<lparr>subcommand := Some ''list''\<rparr>)))
             [Selected (CommitQuickPickItem stash0 False),
              Selected (CommandQuickPickItem ''Show Details'')])))"
proof -
  let ?env = "refEnv [] [repoA] (Some [stash0]) (failingWith ''boom'')"
  let ?a = "Some (argsFor (noState\<lparr>subcommand := Some ''list''\<rparr>))"
  let ?ins = "[Selected (CommitQuickPickItem stash0 False),
               Selected (CommandQuickPickItem ''Show Details'')]"
  have raised: "outcome (steps ?env ?a ?ins) = Raised (Error ''boom'')"
    by (simp add: list_action_fails_run outcome_def)
  have drop: "reporting (subcommand (emptyState\<lparr>subcommand := Some ''drop''\<rparr>))"
    by (simp add: reporting_def)
  have list: "\<not> reporting (subcommand (emptyState\<lparr>subcommand := Some ''list''\<rparr>))"
    by (simp add: reporting_def)
  from C9_handler_classification
         [of "emptyState\<lparr>subcommand := Some ''drop''\<rparr>" "''boom''" ?env ?a ?ins "Error ''boom''"]
       drop
  have 1: "\<exists>report. isReport report
      \<and> catch (emptyState\<lparr>subcommand := Some ''drop''\<rparr>) (Error ''boom'')
          = ([LogError (Error ''boom'') ''Stash.drop'', report], Finished)"
    by (simp add: title_def templ_def)
  from C9_handler_classification
         [of "emptyState\<lparr>subcommand := Some ''list''\<rparr>" "''boom''" ?env ?a ?ins "Error ''boom''"]
       list raised
  have 2: "catch (emptyState\<lparr>subcommand := Some ''list''\<rparr>) (Error ''boom'')
        = ([LogError (Error ''boom'') ''Stash.list''], Raised (Error ''boom''))
      \<and> \<not> reporting (subcommand (final (steps ?env ?a ?ins)))"
    by (simp add: title_def templ_def)
  from 1 2 show ?thesis by blast
qed

text \<open>
  The claim as stated fails for the tag list: the action of the list chain raises, and the
  exception leaves the generator.
\<close>

theorem C9_list_counterexample:
  "outcome (steps (refEnv [] [repoA] (Some [stash0]) (failingWith ''boom''))
      (Some (argsFor (noState\<lparr>subcommand := Some ''list''\<rparr>)))
      [Selected (CommitQuickPickItem stash0 False),
       Selected (CommandQuickPickItem ''Show Details'')])
     = Raised (Error ''boom'')
   \<and> subcommand (final (steps (refEnv [] [repoA] (Some [stash0]) (failingWith ''boom''))
      (Some (argsFor (noState\<lparr>subcommand := Some ''list''\<rparr>)))
      [Selected (CommitQuickPickItem stash0 False),
       Selected (CommandQuickPickItem ''Show Details'')]))
     = Some ''list''"
  by (simp add: list_action_fails_run outcome_def final_def)

section \<open>The confirmation of apply, pop and drop\<close>

lemma askPick_Nil [simp]: "askPick env step st [] = Awaiting"
  by (simp add: askPick_def)

lemma askPick_Cons:
  "askPick env step st (sel # rest) =
     (case canPickStepMoveNext env step (counter st) sel of
        Throws ex \<Rightarrow> Thrown ex rest
      | Returns b c \<Rightarrow>
          if b then Accepted (st\<lparr>counter := c\<rparr>) sel rest else Declined (st\<lparr>counter := c\<rparr>) rest)"
  by (simp add: askPick_def)

text \<open>The description of a confirmation row, in the words of the claim.\<close>

definition shownMessage :: "env \<Rightarrow> string \<Rightarrow> string" where
  "shownMessage env m = (if length m \<le> 80 then m else take 80 m @ glyphEllipsis env)"

definition describes :: "env \<Rightarrow> stash_commit \<Rightarrow> item \<Rightarrow> bool" where
  "describes env s it =
     (case it of
        ConfirmItem l d dt cmd \<Rightarrow>
          d = stashName s @ pad env (glyphDash env) 2 2 @ shownMessage env (message s)
      | _ \<Rightarrow> False)"

lemma truncated_shown: "truncated env m = shownMessage env m"
  by (simp add: truncated_def shownMessage_def)

lemma describes_applyOrPop:
  "\<forall>it \<in> set (itemsOf (applyOrPopConfirmStep env r s st)). describes env s it"
  by (simp add: applyOrPopConfirmStep_def itemsOf_def describes_def truncated_shown Let_def)

lemma describes_drop:
  "\<forall>it \<in> set (itemsOf (dropConfirmStep env r s st)). describes env s it"
  by (simp add: dropConfirmStep_def itemsOf_def describes_def truncated_shown Let_def)

text \<open>
  What a chain that starts with the choice of the stash yields: the pick step, and the
  confirmation for the stash that the state holds at the end.
\<close>

definition confirmsStored ::
  "env \<Rightarrow> (stash_commit \<Rightarrow> state \<Rightarrow> step) \<Rightarrow> string \<Rightarrow> repository \<Rightarrow> result \<Rightarrow> bool" where
  "confirmsStored env confirmStep ph r res =
     (case res of
        (evs, st', rest, c) \<Rightarrow>
          \<forall>e \<in> set evs.
            (\<exists>op. e = Call op)
            \<or> (\<exists>st1. e = Yield (stashPickStep env ph r st1))
            \<or> (\<exists>s st1. e = Yield (confirmStep s st1) \<and> stash st' = Some s))"

lemma confirmsStored_applyOrPopConfirm:
  assumes "stash st = Some s"
  shows "confirmsStored env (applyOrPopConfirmStep env r) ph r
           (applyOrPopConfirm env sc r s st inputs)"
proof (cases "this_confirm env sc (confirm st)")
  case False
  then show ?thesis
    by (simp add: applyOrPopConfirm_def terminal_def confirmsStored_def)
next
  case True
  let ?step = "applyOrPopConfirmStep env r s st"
  show ?thesis
  proof (cases "askPick env ?step st inputs")
    case Awaiting
    with True assms show ?thesis
      by (auto simp: applyOrPopConfirm_def Let_def confirmsStored_def)
  next
    case (Thrown ex rest)
    with True assms show ?thesis
      by (auto simp: applyOrPopConfirm_def Let_def confirmsStored_def)
  next
    case (Declined st1 rest)
    then obtain c1 where "st1 = st\<lparr>counter := c1\<rparr>" by (auto dest: askPick_state)
    with True assms Declined show ?thesis
      by (auto simp: applyOrPopConfirm_def Let_def confirmsStored_def)
  next
    case (Accepted st1 sel rest)
    then obtain c1 where "st1 = st\<lparr>counter := c1\<rparr>" by (auto dest: askPick_state)
    with True assms Accepted show ?thesis
      by (cases "selectedCommand ?step sel")
         (auto simp: applyOrPopConfirm_def Let_def confirmsStored_def terminal_def)
  qed
qed

lemma confirmsStored_dropConfirm:
  assumes "stash st = Some s"
  shows "confirmsStored env (dropConfirmStep env r) ph r (dropConfirm env r s st inputs)"
proof -
  let ?step = "dropConfirmStep env r s st"
  show ?thesis
  proof (cases "askPick env ?step st inputs")
    case Awaiting
    with assms show ?thesis
      by (auto simp: dropConfirm_def Let_def confirmsStored_def)
  next
    case (Thrown ex rest)
    with assms show ?thesis
      by (auto simp: dropConfirm_def Let_def confirmsStored_def)
  next
    case (Declined st1 rest)
    then obtain c1 where "st1 = st\<lparr>counter := c1\<rparr>" by (auto dest: askPick_state)
    with assms Declined show ?thesis
      by (auto simp: dropConfirm_def Let_def confirmsStored_def)
  next
    case (Accepted st1 sel rest)
    then obtain c1 where "st1 = st\<lparr>counter := c1\<rparr>" by (auto dest: askPick_state)
    with assms Accepted show ?thesis
      by (auto simp: dropConfirm_def Let_def confirmsStored_def terminal_def)
  qed
qed

lemma confirmsStored_prepend:
  assumes "confirmsStored env cs ph r res"
  shows "confirmsStored env cs ph r (prepend [Yield (stashPickStep env ph r st0)] res)"
proof (cases res)
  case (fields evs st' rest c)
  with assms show ?thesis
    by (auto simp: confirmsStored_def)
qed

lemma confirmsStored_pickStash:
  assumes "\<And>s st1 ins. stash st1 = Some s \<Longrightarrow> confirmsStored env cs ph r (k s st1 ins)"
  shows "confirmsStored env cs ph r (pickStash env ph r st inputs k)"
proof -
  let ?step = "stashPickStep env ph r st"
  have ask: "confirmsStored env cs ph r (askStash env ph r st inputs k)"
  proof (cases "askPick env ?step st inputs")
    case (Accepted st1 sel rest)
    show ?thesis
    proof (cases "selectedCommit ?step sel")
      case None
      with Accepted show ?thesis
        by (auto simp: askStash_def Let_def confirmsStored_def)
    next
      case (Some cm)
      have "confirmsStored env cs ph r (k cm (st1\<lparr>stash := Some cm\<rparr>) rest)"
        by (rule assms) simp
      from confirmsStored_prepend[OF this, of st] Accepted Some show ?thesis
        by (simp add: askStash_def Let_def)
    qed
  qed (auto simp: askStash_def Let_def confirmsStored_def)
  show ?thesis
  proof (cases "stash st")
    case None
    with ask show ?thesis by (simp add: pickStash_def)
  next
    case (Some s)
    with ask assms[of st s inputs] show ?thesis by (simp add: pickStash_def)
  qed
qed

lemma applyOrPopConfirm_keeps:
  "applyOrPopConfirm env sc r s st inputs = (evs, st', rest, c) \<Longrightarrow> stash st' = stash st"
  by (auto simp: applyOrPopConfirm_def Let_def terminal_def
      split: if_splits asked.splits option.splits dest!: askPick_state)

lemma dropConfirm_keeps:
  "dropConfirm env r s st inputs = (evs, st', rest, c) \<Longrightarrow> stash st' = stash st"
  by (auto simp: dropConfirm_def Let_def terminal_def
      split: if_splits asked.splits option.splits dest!: askPick_state)

lemma selectedCommit_listed:
  assumes "selectedCommit (stashPickStep env ph r st) sel = Some cm"
  shows "\<exists>cs. getStashList env (path r) = Some cs \<and> cm \<in> set cs"
  using assms
  by (auto simp: selectedCommit_def chosen_def itemsOf_def stashPickStep_def
      split: response.splits if_splits option.splits item.splits)

lemma pickStash_stored:
  assumes "pickStash env ph r st inputs k = (evs, st', rest, c)"
    and "\<And>s st1 ins evs1 st2 rest1 c1. k s st1 ins = (evs1, st2, rest1, c1) \<Longrightarrow> stash st2 = stash st1"
  shows "stash st' = stash st
         \<or> (\<exists>cs s. getStashList env (path r) = Some cs \<and> s \<in> set cs \<and> stash st' = Some s)"
proof (cases "stash st \<noteq> None \<and> \<not> counter st < 3")
  case True
  then obtain s where "stash st = Some s" by auto
  with True assms(1) have "k s st inputs = (evs, st', rest, c)"
    by (simp add: pickStash_def)
  from assms(2)[OF this] show ?thesis by simp
next
  case False
  then have ask: "askStash env ph r st inputs k = (evs, st', rest, c)"
    using assms(1) by (auto simp: pickStash_def split: option.splits if_splits)
  let ?step = "stashPickStep env ph r st"
  show ?thesis
  proof (cases "askPick env ?step st inputs")
    case Awaiting
    with ask show ?thesis by (simp add: askStash_def Let_def)
  next
    case (Thrown ex rest1)
    with ask show ?thesis by (simp add: askStash_def Let_def)
  next
    case (Declined st1 rest1)
    then obtain c1 where "st1 = st\<lparr>counter := c1\<rparr>" by (auto dest: askPick_state)
    with ask Declined show ?thesis by (auto simp: askStash_def Let_def)
  next
    case (Accepted st1 sel rest1)
    then obtain c1 where st1: "st1 = st\<lparr>counter := c1\<rparr>" by (auto dest: askPick_state)
    show ?thesis
    proof (cases "selectedCommit ?step sel")
      case None
      with ask Accepted st1 show ?thesis by (auto simp: askStash_def Let_def)
    next
      case (Some cm)
      with ask Accepted
      have "prepend [Yield ?step] (k cm (st1\<lparr>stash := Some cm\<rparr>) rest1) = (evs, st', rest, c)"
        by (simp add: askStash_def Let_def)
      then obtain evs1 where "k cm (st1\<lparr>stash := Some cm\<rparr>) rest1 = (evs1, st', rest, c)"
        by (rule prepend_shorter)
      from assms(2)[OF this] have "stash st' = Some cm" by simp
      with selectedCommit_listed[OF Some] show ?thesis by blast
    qed
  qed
qed

text \<open>
  C10.  The confirmation of drop has one row and the confirmation of apply and pop has two,
  and the description of each row is the name of the stash, the padded dash, and the message
  of the stash: in full when it has at most 80 characters, otherwise its first 80 characters
  followed by the ellipsis glyph.  A chain entered with a stash and the counter at three
  yields that confirmation (apply and pop: when the confirmation is asked).  Every
  confirmation step that the apply/pop chain or the drop chain yields has rows, and they
  describe the stash \<open>s\<close> that the state holds when the chain ends.  The message that
  the state holds is the one of \<open>s\<close>, not the shortened one: the stash of the state at
  the end is the one it held at the start or an entry of the listing, as the git service
  returned it.
\<close>

theorem C10_confirmation_message_truncated:
  "itemsOf (dropConfirmStep env r sh st)
     = [ConfirmItem (title @ '' '' @ templ (getSubtitle (subcommand st)))
          (stashName sh @ pad env (glyphDash env) 2 2 @ shownMessage env (message sh))
          (''Will delete '' @ stashName sh) None]
   \<and> (\<exists>l1 l2 dt1 dt2 c1 c2.
         itemsOf (applyOrPopConfirmStep env r sh st)
         = [ConfirmItem l1
              (stashName sh @ pad env (glyphDash env) 2 2 @ shownMessage env (message sh)) dt1 c1,
            ConfirmItem l2
              (stashName sh @ pad env (glyphDash env) 2 2 @ shownMessage env (message sh)) dt2 c2])
   \<and> (stash st = Some sh \<and> 3 \<le> counter st \<longrightarrow>
        stash_drop env r st [] = ([Yield (dropConfirmStep env r sh st)], st, [], Suspend))
   \<and> (stash st = Some sh \<and> 3 \<le> counter st \<and> this_confirm env sc (confirm st) \<longrightarrow>
        applyOrPop env sc r st [] = ([Yield (applyOrPopConfirmStep env r sh st)], st, [], Suspend))
   \<and> (applyOrPop env sc r st inputs = (evs, st', rest, c)
      \<and> Yield (ConfirmStep t items ph) \<in> set evs \<longrightarrow>
      (\<exists>s. stash st' = Some s \<and> items \<noteq> [] \<and> (\<forall>it \<in> set items. describes env s it)))
   \<and> (stash_drop env r st inputs = (evs, st', rest, c)
      \<and> Yield (ConfirmStep t items ph) \<in> set evs \<longrightarrow>
      (\<exists>s. stash st' = Some s \<and> items \<noteq> [] \<and> (\<forall>it \<in> set items. describes env s it)))
   \<and> (applyOrPop env sc r st inputs = (evs, st', rest, c) \<longrightarrow>
        stash st' = stash st
        \<or> (\<exists>cs s. getStashList env (path r) = Some cs \<and> s \<in> set cs \<and> stash st' = Some s))
   \<and> (stash_drop env r st inputs = (evs, st', rest, c) \<longrightarrow>
        stash st' = stash st
        \<or> (\<exists>cs s. getStashList env (path r) = Some cs \<and> s \<in> set cs \<and> stash st' = Some s))
   \<and> (length m \<le> 80 \<longrightarrow> shownMessage env m = m)
   \<and> (80 < length m \<longrightarrow> shownMessage env m = take 80 m @ glyphEllipsis env)"
proof -
  have r1: "itemsOf (dropConfirmStep env r sh st)
     = [ConfirmItem (title @ '' '' @ templ (getSubtitle (subcommand st)))
          (stashName sh @ pad env (glyphDash env) 2 2 @ shownMessage env (message sh))
          (''Will delete '' @ stashName sh) None]"
    by (simp add: dropConfirmStep_def itemsOf_def truncated_shown Let_def)
  have r2: "\<exists>l1 l2 dt1 dt2 c1 c2.
         itemsOf (applyOrPopConfirmStep env r sh st)
         = [ConfirmItem l1
              (stashName sh @ pad env (glyphDash env) 2 2 @ shownMessage env (message sh)) dt1 c1,
            ConfirmItem l2
              (stashName sh @ pad env (glyphDash env) 2 2 @ shownMessage env (message sh)) dt2 c2]"
    by (simp add: applyOrPopConfirmStep_def itemsOf_def truncated_shown Let_def)
  have y1: "stash st = Some sh \<and> 3 \<le> counter st \<longrightarrow>
        stash_drop env r st [] = ([Yield (dropConfirmStep env r sh st)], st, [], Suspend)"
    by (simp add: stash_drop_def pickStash_def dropConfirm_def Let_def)
  have y2: "stash st = Some sh \<and> 3 \<le> counter st \<and> this_confirm env sc (confirm st) \<longrightarrow>
        applyOrPop env sc r st [] = ([Yield (applyOrPopConfirmStep env r sh st)], st, [], Suspend)"
    by (simp add: applyOrPop_def pickStash_def applyOrPopConfirm_def Let_def)
  have ka: "applyOrPop env sc r st inputs = (evs, st', rest, c) \<longrightarrow>
        stash st' = stash st
        \<or> (\<exists>cs s. getStashList env (path r) = Some cs \<and> s \<in> set cs \<and> stash st' = Some s)"
    unfolding applyOrPop_def
    using pickStash_stored[of env _ r st inputs "applyOrPopConfirm env sc r" evs st' rest c]
      applyOrPopConfirm_keeps by blast
  have kd: "stash_drop env r st inputs = (evs, st', rest, c) \<longrightarrow>
        stash st' = stash st
        \<or> (\<exists>cs s. getStashList env (path r) = Some cs \<and> s \<in> set cs \<and> stash st' = Some s)"
    unfolding stash_drop_def
    using pickStash_stored[of env _ r st inputs "dropConfirm env r" evs st' rest c]
      dropConfirm_keeps by blast
  have a: "applyOrPop env sc r st inputs = (evs, st', rest, c)
      \<and> Yield (ConfirmStep t items ph) \<in> set evs \<longrightarrow>
      (\<exists>s. stash st' = Some s \<and> items \<noteq> [] \<and> (\<forall>it \<in> set items. describes env s it))"
  proof
    assume h: "applyOrPop env sc r st inputs = (evs, st', rest, c)
      \<and> Yield (ConfirmStep t items ph) \<in> set evs"
    have "confirmsStored env (applyOrPopConfirmStep env r)
            ''Choose a stash to apply to your working tree'' r (applyOrPop env sc r st inputs)"
      unfolding applyOrPop_def
      by (rule confirmsStored_pickStash) (rule confirmsStored_applyOrPopConfirm)
    with h have "\<forall>e \<in> set evs.
            (\<exists>op. e = Call op)
            \<or> (\<exists>st1. e = Yield (stashPickStep env ''Choose a stash to apply to your working tree'' r st1))
            \<or> (\<exists>s st1. e = Yield (applyOrPopConfirmStep env r s st1) \<and> stash st' = Some s)"
      unfolding confirmsStored_def by simp
    with h have "(\<exists>op. Yield (ConfirmStep t items ph) = Call op)
        \<or> (\<exists>st1. Yield (ConfirmStep t items ph)
               = Yield (stashPickStep env ''Choose a stash to apply to your working tree'' r st1))
        \<or> (\<exists>s st1. Yield (ConfirmStep t items ph) = Yield (applyOrPopConfirmStep env r s st1)
               \<and> stash st' = Some s)"
      by blast
    then obtain s st1 where eq: "ConfirmStep t items ph = applyOrPopConfirmStep env r s st1"
      and stored: "stash st' = Some s"
      by (auto simp: stashPickStep_def)
    have its: "items = itemsOf (applyOrPopConfirmStep env r s st1)"
      unfolding eq[symmetric] by (simp add: itemsOf_def)
    have "items \<noteq> []"
      unfolding its by (simp add: applyOrPopConfirmStep_def itemsOf_def Let_def)
    with describes_applyOrPop[of env r s st1] its stored
    show "\<exists>s. stash st' = Some s \<and> items \<noteq> [] \<and> (\<forall>it \<in> set items. describes env s it)"
      by blast
  qed
  have d: "stash_drop env r st inputs = (evs, st', rest, c)
      \<and> Yield (ConfirmStep t items ph) \<in> set evs \<longrightarrow>
      (\<exists>s. stash st' = Some s \<and> items \<noteq> [] \<and> (\<forall>it \<in> set items. describes env s it))"
  proof
    assume h: "stash_drop env r st inputs = (evs, st', rest, c)
      \<and> Yield (ConfirmStep t items ph) \<in> set evs"
    have "confirmsStored env (dropConfirmStep env r) ''Choose a stash to delete'' r
            (stash_drop env r st inputs)"
      unfolding stash_drop_def
      by (rule confirmsStored_pickStash) (rule confirmsStored_dropConfirm)
    with h have "\<forall>e \<in> set evs.
            (\<exists>op. e = Call op)
            \<or> (\<exists>st1. e = Yield (stashPickStep env ''Choose a stash to delete'' r st1))
            \<or> (\<exists>s st1. e = Yield (dropConfirmStep env r s st1) \<and> stash st' = Some s)"
      unfolding confirmsStored_def by simp
    with h have "(\<exists>op. Yield (ConfirmStep t items ph) = Call op)
        \<or> (\<exists>st1. Yield (ConfirmStep t items ph)
               = Yield (stashPickStep env ''Choose a stash to delete'' r st1))
        \<or> (\<exists>s st1. Yield (ConfirmStep t items ph) = Yield (dropConfirmStep env r s st1)
               \<and> stash st' = Some s)"
      by blast
    then obtain s st1 where eq: "ConfirmStep t items ph = dropConfirmStep env r s st1"
      and stored: "stash st' = Some s"
      by (auto simp: stashPickStep_def)
    have its: "items = itemsOf (dropConfirmStep env r s st1)"
      unfolding eq[symmetric] by (simp add: itemsOf_def)
    have "items \<noteq> []"
      unfolding its by (simp add: dropConfirmStep_def itemsOf_def Let_def)
    with describes_drop[of env r s st1] its stored
    show "\<exists>s. stash st' = Some s \<and> items \<noteq> [] \<and> (\<forall>it \<in> set items. describes env s it)"
      by blast
  qed
  have s1: "length m \<le> 80 \<longrightarrow> shownMessage env m = m"
    by (simp add: shownMessage_def)
  have s2: "80 < length m \<longrightarrow> shownMessage env m = take 80 m @ glyphEllipsis env"
    by (simp add: shownMessage_def)
  from r1 r2 y1 y2 a d ka kd s1 s2 show ?thesis by blast
qed

definition longStash :: stash_commit where
  "longStash =
     \<lparr>stashName = ''stash-9'',
      message = ''0123456789012345678901234567890123456789012345678901234567890123456789012345678901234'',
      ref = ''r9'', repoPath = ''/a'', shortSha = ''fed'', number = Some ''9'',
      shortMessage = ''long''\<rparr>"

definition longDropState :: state where
  "longDropState =
     \<lparr>subcommand = Some ''drop'', repo = Some repoA, stash = Some longStash, push_message = None,
        uris = None, flags = None, counter = 3, confirm = None\<rparr>"

definition longDropItem :: item where
  "longDropItem =
     ConfirmItem ''Stash Drop''
       ''stash-9  -  01234567890123456789012345678901234567890123456789012345678901234567890123456789...''
       ''Will delete stash-9'' None"

theorem C10_confirmation_message_truncated_witness:
  "itemsOf (dropConfirmStep dropRunEnv repoA longStash longDropState) = [longDropItem]
   \<and> stash_drop dropRunEnv repoA longDropState []
       = ([Yield (dropConfirmStep dropRunEnv repoA longStash longDropState)],
          longDropState, [], Suspend)"
proof -
  have len: "80 < length (message longStash)"
    by (simp add: longStash_def)
  have held: "stash longDropState = Some longStash \<and> 3 \<le> counter longDropState"
    by (simp add: longDropState_def)
  note inst = C10_confirmation_message_truncated
         [where env = dropRunEnv and r = repoA and st = longDropState and sh = longStash
            and m = "message longStash"]
  from inst len have shown: "shownMessage dropRunEnv (message longStash)
      = take 80 (message longStash) @ glyphEllipsis dropRunEnv"
    by blast
  from inst have "itemsOf (dropConfirmStep dropRunEnv repoA longStash longDropState)
     = [ConfirmItem (title @ '' '' @ templ (getSubtitle (subcommand longDropState)))
          (stashName longStash @ pad dropRunEnv (glyphDash dropRunEnv) 2 2
             @ shownMessage dropRunEnv (message longStash))
          (''Will delete '' @ stashName longStash) None]"
    by blast
  then have rows: "itemsOf (dropConfirmStep dropRunEnv repoA longStash longDropState) = [longDropItem]"
    unfolding shown
    by (simp add: longDropItem_def longStash_def longDropState_def dropRunEnv_def refEnv_def
        title_def templ_def getSubtitle_def subcommandToSubtitleMap_def numeral_2_eq_2)
  from inst held have "stash_drop dropRunEnv repoA longDropState []
       = ([Yield (dropConfirmStep dropRunEnv repoA longStash longDropState)],
          longDropState, [], Suspend)"
    by blast
  with rows show ?thesis by simp
qed

section \<open>Switching the verb at the confirmation\<close>

definition inverted :: "string \<Rightarrow> string" where
  "inverted verb = (if verb = ''pop'' then ''apply'' else ''pop'')"

definition verbLabel :: "string \<Rightarrow> string" where
  "verbLabel verb = (if verb = ''pop'' then ''Stash Pop'' else ''Stash Apply'')"

lemma applyOrPopConfirm_accepts:
  assumes "canPickStepMoveNext env (applyOrPopConfirmStep env r s st) (counter st) (Selected it)
             = Returns True c'"
    and "this_confirm env sc (confirm st)"
    and "it \<in> set (itemsOf (applyOrPopConfirmStep env r s st))"
    and "it = ConfirmItem l d dt (Some command)"
  shows "applyOrPopConfirm env sc r s st (Selected it # rest)
         = ([Yield (applyOrPopConfirmStep env r s st),
             Call (StashApply (path r) (stashName s) (command = ''pop''))],
            st\<lparr>counter := c', subcommand := Some command\<rparr>, rest,
            Throw (raisedBy env (StashApply (path r) (stashName s) (command = ''pop''))))"
proof -
  let ?step = "applyOrPopConfirmStep env r s st"
  have ask: "askPick env ?step st (Selected it # rest) = Accepted (st\<lparr>counter := c'\<rparr>) (Selected it) rest"
    using assms(1) by (simp add: askPick_Cons)
  have sel: "selectedCommand ?step (Selected it) = Some command"
    using assms(3,4) by (simp add: selectedCommand_def chosen_def)
  show ?thesis
    using assms(2) ask sel
    by (simp add: applyOrPopConfirm_def Let_def terminal_def raisedBy_def)
qed

text \<open>
  C4.  With the tag apply or pop and the confirmation asked, the confirmation step offers
  two rows: the requested verb, and then its counterpart (Pop when the tag is apply, Apply
  when it is pop).  When a row is selected and the navigation helper accepts the selection,
  the chain yields the step, stores the verb of the row as the tag of the state and calls
  \<open>StashApply\<close> with the flag that tells whether that verb is pop.  In every run of
  the wizard the flag of a \<open>StashApply\<close> call tells whether the tag of the state is
  pop at the end.
\<close>

theorem C4_confirm_switches_verb:
  assumes "subcommand st = Some verb" and "verb = ''apply'' \<or> verb = ''pop''"
    and "this_confirm env sc (confirm st)"
  shows "(\<exists>d dt1 dt2.
            itemsOf (applyOrPopConfirmStep env r s st)
            = [ConfirmItem (verbLabel verb) d dt1 (Some verb),
               ConfirmItem (verbLabel (inverted verb)) d dt2 (Some (inverted verb))])
         \<and> (it \<in> set (itemsOf (applyOrPopConfirmStep env r s st))
              \<and> canPickStepMoveNext env (applyOrPopConfirmStep env r s st) (counter st) (Selected it)
                  = Returns True c' \<longrightarrow>
              (\<exists>command. (command = verb \<or> command = inverted verb)
                 \<and> (\<exists>l d dt. it = ConfirmItem l d dt (Some command))
                 \<and> applyOrPopConfirm env sc r s st (Selected it # rest)
                     = ([Yield (applyOrPopConfirmStep env r s st),
                         Call (StashApply (path r) (stashName s) (command = ''pop''))],
                        st\<lparr>counter := c', subcommand := Some command\<rparr>, rest,
                        Throw (raisedBy env (StashApply (path r) (stashName s) (command = ''pop''))))))
         \<and> (events (steps env a inputs) = pre @ Call (StashApply p n remove) # post \<longrightarrow>
              remove = (subcommand (final (steps env a inputs)) = Some ''pop''))"
proof -
  let ?step = "applyOrPopConfirmStep env r s st"
  have items: "\<exists>d dt1 dt2. itemsOf ?step
            = [ConfirmItem (verbLabel verb) d dt1 (Some verb),
               ConfirmItem (verbLabel (inverted verb)) d dt2 (Some (inverted verb))]"
    using assms(1,2)
    by (auto simp: applyOrPopConfirmStep_def itemsOf_def Let_def verbLabel_def inverted_def
        title_def getSubtitle_def templ_def subcommandToSubtitleMap_def)
  have pick: "it \<in> set (itemsOf ?step)
              \<and> canPickStepMoveNext env ?step (counter st) (Selected it) = Returns True c' \<longrightarrow>
              (\<exists>command. (command = verb \<or> command = inverted verb)
                 \<and> (\<exists>l d dt. it = ConfirmItem l d dt (Some command))
                 \<and> applyOrPopConfirm env sc r s st (Selected it # rest)
                     = ([Yield ?step, Call (StashApply (path r) (stashName s) (command = ''pop''))],
                        st\<lparr>counter := c', subcommand := Some command\<rparr>, rest,
                        Throw (raisedBy env (StashApply (path r) (stashName s) (command = ''pop'')))))"
  proof
    assume h: "it \<in> set (itemsOf ?step)
              \<and> canPickStepMoveNext env ?step (counter st) (Selected it) = Returns True c'"
    from items obtain d dt1 dt2 where
      its: "itemsOf ?step = [ConfirmItem (verbLabel verb) d dt1 (Some verb),
               ConfirmItem (verbLabel (inverted verb)) d dt2 (Some (inverted verb))]"
      by blast
    with h obtain command l dt where
      it: "it = ConfirmItem l d dt (Some command)" "command = verb \<or> command = inverted verb"
      by auto
    from applyOrPopConfirm_accepts[OF conjunct2[OF h] assms(3) conjunct1[OF h] it(1), of rest] it
    show "\<exists>command. (command = verb \<or> command = inverted verb)
                 \<and> (\<exists>l d dt. it = ConfirmItem l d dt (Some command))
                 \<and> applyOrPopConfirm env sc r s st (Selected it # rest)
                     = ([Yield ?step, Call (StashApply (path r) (stashName s) (command = ''pop''))],
                        st\<lparr>counter := c', subcommand := Some command\<rparr>, rest,
                        Throw (raisedBy env (StashApply (path r) (stashName s) (command = ''pop''))))"
      by blast
  qed
  have run: "events (steps env a inputs) = pre @ Call (StashApply p n remove) # post \<longrightarrow>
              remove = (subcommand (final (steps env a inputs)) = Some ''pop'')"
  proof
    assume "events (steps env a inputs) = pre @ Call (StashApply p n remove) # post"
    from steps_around_call[OF this]
    have "opFits env (StashApply p n remove) pre (final (steps env a inputs))" by simp
    then show "remove = (subcommand (final (steps env a inputs)) = Some ''pop'')"
      unfolding opFits_def by simp
  qed
  from items pick run show ?thesis by blast
qed

definition applyConfirmState :: state where
  "applyConfirmState =
     \<lparr>subcommand = Some ''apply'', repo = Some repoA, stash = Some stash0, push_message = None,
        uris = None, flags = None, counter = 3, confirm = None\<rparr>"

definition popItem0 :: item where
  "popItem0 =
     ConfirmItem ''Stash Pop'' ''stash-0  -  wip''
       ''Will delete stash-0 and apply the changes to the working tree of A'' (Some ''pop'')"

lemma applyConfirmStep0_eq:
  "applyOrPopConfirmStep dropRunEnv repoA stash0 applyConfirmState = applyConfirmStep0"
  unfolding dropRunEnv_def applyConfirmState_def applyConfirmStep0_def
  by (simp add: run_defs step_defs)

theorem C4_confirm_switches_verb_witness:
  "applyOrPopConfirm dropRunEnv (Some ''apply'') repoA stash0 applyConfirmState [Selected popItem0]
   = ([Yield applyConfirmStep0, Call (StashApply ''/a'' ''stash-0'' True)],
      applyConfirmState\<lparr>counter := 4, subcommand := Some ''pop''\<rparr>, [],
      Throw BreakQuickCommand)"
proof -
  have tag: "subcommand applyConfirmState = Some ''apply''"
    by (simp add: applyConfirmState_def)
  have asked: "this_confirm dropRunEnv (Some ''apply'') (confirm applyConfirmState)"
    by (simp add: dropRunEnv_def applyConfirmState_def run_defs)
  have offered: "popItem0 \<in> set (itemsOf (applyOrPopConfirmStep dropRunEnv repoA stash0 applyConfirmState))"
    by (simp add: applyConfirmStep0_eq applyConfirmStep0_def itemsOf_def popItem0_def)
  have accepted: "canPickStepMoveNext dropRunEnv
        (applyOrPopConfirmStep dropRunEnv repoA stash0 applyConfirmState)
        (counter applyConfirmState) (Selected popItem0) = Returns True 4"
    by (simp add: dropRunEnv_def refEnv_def specMoveNext_def applyConfirmState_def)
  have verb: "''apply'' = ''apply'' \<or> ''apply'' = ''pop''"
    by simp
  from C4_confirm_switches_verb[OF tag verb asked,
         where r = repoA and s = stash0 and it = popItem0 and c' = 4 and rest = "[]"
           and a = None and inputs = "[]" and pre = "[]" and p = "[]" and n = "[]"
           and remove = False and post = "[]"]
       offered accepted
  obtain command where
    "\<exists>l d dt. popItem0 = ConfirmItem l d dt (Some command)"
    "applyOrPopConfirm dropRunEnv (Some ''apply'') repoA stash0 applyConfirmState [Selected popItem0]
       = ([Yield (applyOrPopConfirmStep dropRunEnv repoA stash0 applyConfirmState),
           Call (StashApply (path repoA) (stashName stash0) (command = ''pop''))],
          applyConfirmState\<lparr>counter := 4, subcommand := Some command\<rparr>, [],
          Throw (raisedBy dropRunEnv (StashApply (path repoA) (stashName stash0) (command = ''pop''))))"
    by blast
  note chosen = this
  from chosen(1) have command: "command = ''pop''"
    by (simp add: popItem0_def)
  have returns: "raisedBy dropRunEnv (StashApply ''/a'' ''stash-0'' True) = BreakQuickCommand"
    by (simp add: raisedBy_def dropRunEnv_def refEnv_def succeeding_def)
  have names: "path repoA = ''/a''" "stashName stash0 = ''stash-0''"
    by (simp_all add: repoA_def stash0_def)
  from chosen(2) show ?thesis
    unfolding command applyConfirmStep0_eq by (simp add: returns names)
qed

section \<open>A push with an empty message and one path\<close>

lemma prepend_Nil: "prepend [] res = res"
  by (cases res) (simp add: prepend_def)

lemma andThen_Normal: "andThen (evs, st, rest, Normal) k = prepend evs (k st rest)"
  by (simp add: andThen_def)

lemma steps_first_round:
  assumes "initialState (Some a) = Some st"
    and "tryBlock env st inputs = (evs, st', rest, Suspend)"
  shows "steps env (Some a) inputs = (evs, st', Suspended)"
  using assms by (simp add: steps_def steps_loop_Suspend)

text \<open>The step that \<^verbatim>\<open>push\<close> builds for the empty message and one path.\<close>

lemma pushConfirmStep_scoped:
  assumes "subcommand st = Some ''push''" and "uris st = Some us" and "us \<noteq> []"
  shows "pushConfirmStep env r [] fl st
         = ConfirmStep (''Confirm Stash Push'' @ pad env (glyphDot env) 2 2 @ formattedName r)
             [FlagsQuickPickItem fl [] ''Stash Push'' []
                (''Will stash changes in '' @ stashedFiles env r us),
              FlagsQuickPickItem fl [KeepIndex] ''Stash Push & Keep Staged'' ''--keep-index ''
                (''Will stash changes in '' @ stashedFiles env r us
                   @ '', but will keep staged files intact'')]
             ''Confirm Stash Push''"
  using assms
  by (simp add: pushConfirmStep_def chainTitle_def title_def getSubtitle_def templ_def
      subcommandToSubtitleMap_def)

text \<open>
  The chain from a state that holds the empty message at position three: no message step;
  the confirmation when it is asked, the terminal call otherwise.
\<close>

lemma push_from_three:
  assumes "subcommand st = Some ''push''" and "push_message st = Some []"
    and "repo st = Some r" and "3 \<le> counter st"
  shows "andThen (dispatch env (Some ''push'') st []) (afterChain env)
         = (let fl = (case flags st of None \<Rightarrow> [] | Some f \<Rightarrow> f);
                st2 = st\<lparr>flags := Some fl\<rparr>;
                op = StashSave (path r) [] (uris st) (IncludeUntracked \<in> set fl) (KeepIndex \<in> set fl)
            in if this_confirm env (Some ''push'') (confirm st)
               then ([Yield (pushConfirmStep env r [] fl st2)], st2, [], Suspend)
               else ([Call op], st2, [], Throw (raisedBy env op)))"
proof -
  have "dispatch env (Some ''push'') st [] = stash_push env (Some ''push'') r st []"
    using assms by (simp add: dispatch_def withRepo_def)
  also have "\<dots> = pushConfirm env (Some ''push'') r []
                    (case flags st of None \<Rightarrow> [] | Some f \<Rightarrow> f)
                    (st\<lparr>flags := Some (case flags st of None \<Rightarrow> [] | Some f \<Rightarrow> f)\<rparr>) []"
    using assms by (simp add: stash_push_def Let_def)
  finally show ?thesis
    by (simp add: pushConfirm_def askPick_def terminal_def raisedBy_def andThen_def Let_def)
qed

lemma catch_no_input:
  "\<forall>e \<in> set (fst (catch st ex)). \<forall>t ph v. e \<noteq> Yield (InputStep t ph v)"
proof (intro ballI allI)
  fix e t ph v assume "e \<in> set (fst (catch st ex))"
  with catch_quiet[of st ex] have "\<not> isYield e" by blast
  then show "e \<noteq> Yield (InputStep t ph v)" by auto
qed

text \<open>
  The first pass of a run whose first statements leave the state \<open>st1\<close> at position three
  after the events \<open>evs0\<close>, none of them a message step.
\<close>

lemma push_first_pass:
  assumes init: "initialState (Some a) = Some st"
    and head: "\<And>k. andThen (pickSubcommand env st inputs) k = k st inputs"
    and rep: "pickRepository env st inputs = (evs0, st1, [], Normal)"
    and sc: "subcommand st = Some ''push''"
    and st1: "subcommand st1 = Some ''push''" "push_message st1 = Some []"
      "repo st1 = Some r" "3 \<le> counter st1"
    and quiet: "\<forall>e \<in> set evs0. \<forall>t ph v. e \<noteq> Yield (InputStep t ph v)"
  shows "(\<forall>e \<in> set (events (steps env (Some a) inputs)). \<forall>t ph v. e \<noteq> Yield (InputStep t ph v))
         \<and> (this_confirm env (Some ''push'') (confirm st1) \<longrightarrow>
              steps env (Some a) inputs
              = (evs0 @ [Yield (pushConfirmStep env r []
                                  (case flags st1 of None \<Rightarrow> [] | Some f \<Rightarrow> f)
                                  (st1\<lparr>flags := Some (case flags st1 of None \<Rightarrow> [] | Some f \<Rightarrow> f)\<rparr>))],
                 st1\<lparr>flags := Some (case flags st1 of None \<Rightarrow> [] | Some f \<Rightarrow> f)\<rparr>, Suspended))"
proof -
  let ?fl = "case flags st1 of None \<Rightarrow> [] | Some f \<Rightarrow> f"
  let ?st2 = "st1\<lparr>flags := Some ?fl\<rparr>"
  let ?op = "StashSave (path r) [] (uris st1) (IncludeUntracked \<in> set ?fl) (KeepIndex \<in> set ?fl)"
  have tb: "tryBlock env st inputs
            = prepend evs0 (andThen (dispatch env (Some ''push'') st1 []) (afterChain env))"
    unfolding tryBlock_def head Let_def rep andThen_Normal sc ..
  note chain = push_from_three[OF st1, of env, unfolded Let_def]
  show ?thesis
  proof (cases "this_confirm env (Some ''push'') (confirm st1)")
    case True
    with tb chain have "tryBlock env st inputs
        = (evs0 @ [Yield (pushConfirmStep env r [] ?fl ?st2)], ?st2, [], Suspend)"
      by simp
    from steps_first_round[OF init this] True quiet show ?thesis
      by (auto simp: events_def pushConfirmStep_def)
  next
    case False
    with tb chain have "tryBlock env st inputs
        = (evs0 @ [Call ?op], ?st2, [], Throw (raisedBy env ?op))"
      by simp
    from steps_loop_Throw[OF this] init
    have "events (steps env (Some a) inputs)
          = evs0 @ Call ?op # fst (catch ?st2 (raisedBy env ?op))"
      by (simp add: steps_def events_def)
    with False quiet catch_no_input[of ?st2 "raisedBy env ?op"] show ?thesis
      by auto
  qed
qed

text \<open>
  C8.  For a push pre-seeded with the empty message and with paths.  The constructor counts
  the empty message as set, one position more than without a message.  The confirmation
  that \<^verbatim>\<open>push\<close> builds has exactly two rows, the plain push and the push that keeps
  the index, and their details name the stashed files, which for a single path is the
  formatted path of the file.  When the repository is pre-seeded too, or is the only one,
  the run yields no message step, and when the confirmation is asked the only step it
  yields before a response is that confirmation.  When the repository is chosen from
  several and the helper accepts the choice at position three or later, the run yields no
  message step either, and when the confirmation is asked it yields the repository menu and
  then that confirmation.
\<close>

theorem C8_push_empty_message_scoped:
  assumes "subcommand p = Some ''push''" and "push_message p = Some []"
    and "uris p = Some us" and "us \<noteq> []"
  shows "initialCounter p = (if repo p = None then 2 else 3)
         \<and> initialCounter (p\<lparr>push_message := None\<rparr>) = initialCounter p - 1
         \<and> pushConfirmStep env r [] fl (partial_state.extend p (state.fields c cf))
            = ConfirmStep (''Confirm Stash Push'' @ pad env (glyphDot env) 2 2 @ formattedName r)
                [FlagsQuickPickItem fl [] ''Stash Push'' []
                   (''Will stash changes in '' @ stashedFiles env r us),
                 FlagsQuickPickItem fl [KeepIndex] ''Stash Push & Keep Staged'' ''--keep-index ''
                   (''Will stash changes in '' @ stashedFiles env r us
                      @ '', but will keep staged files intact'')]
                ''Confirm Stash Push''
         \<and> stashedFiles env r [u] = getFormattedPath env u (path r)
         \<and> (repo p = Some r \<or> (repo p = None \<and> getOrderedRepositories env = [r]) \<longrightarrow>
              (\<forall>e \<in> set (events (steps env (Some \<lparr>args_state = Some p, args_confirm = cf\<rparr>) [])).
                 \<forall>t ph v. e \<noteq> Yield (InputStep t ph v))
              \<and> (this_confirm env (Some ''push'') cf \<longrightarrow>
                   events (steps env (Some \<lparr>args_state = Some p, args_confirm = cf\<rparr>) [])
                     = [Yield (pushConfirmStep env r [] (case flags p of None \<Rightarrow> [] | Some f \<Rightarrow> f)
                                 (partial_state.extend p (state.fields 3 cf)))]
                   \<and> outcome (steps env (Some \<lparr>args_state = Some p, args_confirm = cf\<rparr>) [])
                      = Suspended))
         \<and> (repo p = None \<and> (\<forall>r'. getOrderedRepositories env \<noteq> [r'])
              \<and> RepositoryQuickPickItem r b
                  \<in> set (itemsOf (repositoryStep env (partial_state.extend p (state.fields 2 cf))))
              \<and> canPickStepMoveNext env
                  (repositoryStep env (partial_state.extend p (state.fields 2 cf))) 2
                  (Selected (RepositoryQuickPickItem r b)) = Returns True n
              \<and> 3 \<le> n \<longrightarrow>
              (\<forall>e \<in> set (events (steps env (Some \<lparr>args_state = Some p, args_confirm = cf\<rparr>)
                                   [Selected (RepositoryQuickPickItem r b)])).
                 \<forall>t ph v. e \<noteq> Yield (InputStep t ph v))
              \<and> (this_confirm env (Some ''push'') cf \<longrightarrow>
                   events (steps env (Some \<lparr>args_state = Some p, args_confirm = cf\<rparr>)
                             [Selected (RepositoryQuickPickItem r b)])
                     = [Yield (repositoryStep env (partial_state.extend p (state.fields 2 cf))),
                        Yield (pushConfirmStep env r [] (case flags p of None \<Rightarrow> [] | Some f \<Rightarrow> f)
                                 (partial_state.extend p (state.fields n cf)))]
                   \<and> outcome (steps env (Some \<lparr>args_state = Some p, args_confirm = cf\<rparr>)
                               [Selected (RepositoryQuickPickItem r b)])
                      = Suspended))"
proof -
  let ?a = "\<lparr>args_state = Some p, args_confirm = cf\<rparr>"
  let ?st = "partial_state.extend p (state.fields (initialCounter p) cf)"
  let ?fl = "case flags p of None \<Rightarrow> [] | Some f \<Rightarrow> f"
  have init: "initialState (Some ?a) = Some ?st"
    by (simp add: initialState_def)
  have cnt: "initialCounter p = (if repo p = None then 2 else 3)"
    using assms(1,2) by (simp add: initialCounter_def Let_def)
  have unset: "initialCounter (p\<lparr>push_message := None\<rparr>) = initialCounter p - 1"
    using assms(1,2) by (simp add: initialCounter_def Let_def)
  have fields: "subcommand ?st = Some ''push''" "push_message ?st = Some []" "uris ?st = Some us"
    "repo ?st = repo p" "counter ?st = initialCounter p" "confirm ?st = cf" "flags ?st = flags p"
    using assms by (simp_all add: partial_state.extend_def state.fields_def)
  have rows: "pushConfirmStep env r [] fl (partial_state.extend p (state.fields c cf))
            = ConfirmStep (''Confirm Stash Push'' @ pad env (glyphDot env) 2 2 @ formattedName r)
                [FlagsQuickPickItem fl [] ''Stash Push'' []
                   (''Will stash changes in '' @ stashedFiles env r us),
                 FlagsQuickPickItem fl [KeepIndex] ''Stash Push & Keep Staged'' ''--keep-index ''
                   (''Will stash changes in '' @ stashedFiles env r us
                      @ '', but will keep staged files intact'')]
                ''Confirm Stash Push''" for fl c
    using assms by (intro pushConfirmStep_scoped) (simp_all add: partial_state.extend_def state.fields_def)
  have single: "stashedFiles env r [u] = getFormattedPath env u (path r)"
    by (simp add: stashedFiles_def)
  have head: "andThen (pickSubcommand env ?st inputs) k = k ?st inputs" for inputs k
    using fields cnt by (simp add: pickSubcommand_def andThen_Normal prepend_Nil)
  have one: "(\<forall>e \<in> set (events (steps env (Some ?a) [])). \<forall>t ph v. e \<noteq> Yield (InputStep t ph v))
              \<and> (this_confirm env (Some ''push'') cf \<longrightarrow>
                   events (steps env (Some ?a) [])
                     = [Yield (pushConfirmStep env r [] ?fl (partial_state.extend p (state.fields 3 cf)))]
                   \<and> outcome (steps env (Some ?a) []) = Suspended)"
    if sole: "repo p = Some r \<or> (repo p = None \<and> getOrderedRepositories env = [r])"
  proof -
    define st1 where "st1 = (if repo p = None then ?st\<lparr>counter := 3, repo := Some r\<rparr> else ?st)"
    have st1: "subcommand st1 = Some ''push''" "push_message st1 = Some []"
      "repo st1 = Some r" "3 \<le> counter st1"
      using fields cnt sole by (auto simp: st1_def)
    have paths: "uris st1 = Some us"
      using fields by (auto simp: st1_def)
    have more: "confirm st1 = cf" "flags st1 = flags p"
      using fields by (auto simp: st1_def)
    have rep: "pickRepository env ?st [] = ([], st1, [], Normal)"
      using fields cnt sole by (auto simp: pickRepository_def st1_def Let_def)
    have eq: "pushConfirmStep env r [] ?fl (st1\<lparr>flags := Some ?fl\<rparr>)
              = pushConfirmStep env r [] ?fl (partial_state.extend p (state.fields 3 cf))"
      using st1 paths assms(4) by (simp add: pushConfirmStep_scoped rows)
    from push_first_pass[OF init head rep fields(1) st1, unfolded more eq]
    show ?thesis by (simp add: events_def outcome_def)
  qed
  have two: "(\<forall>e \<in> set (events (steps env (Some ?a) [Selected (RepositoryQuickPickItem r b)])).
                 \<forall>t ph v. e \<noteq> Yield (InputStep t ph v))
              \<and> (this_confirm env (Some ''push'') cf \<longrightarrow>
                   events (steps env (Some ?a) [Selected (RepositoryQuickPickItem r b)])
                     = [Yield (repositoryStep env (partial_state.extend p (state.fields 2 cf))),
                        Yield (pushConfirmStep env r [] ?fl (partial_state.extend p (state.fields n cf)))]
                   \<and> outcome (steps env (Some ?a) [Selected (RepositoryQuickPickItem r b)]) = Suspended)"
    if none: "repo p = None" and several: "\<forall>r'. getOrderedRepositories env \<noteq> [r']"
      and listed: "RepositoryQuickPickItem r b
                  \<in> set (itemsOf (repositoryStep env (partial_state.extend p (state.fields 2 cf))))"
      and moved: "canPickStepMoveNext env
                  (repositoryStep env (partial_state.extend p (state.fields 2 cf))) 2
                  (Selected (RepositoryQuickPickItem r b)) = Returns True n"
      and far: "3 \<le> n"
  proof -
    from cnt none have c2: "initialCounter p = 2" by simp
    let ?step = "repositoryStep env ?st"
    define st1 where "st1 = ?st\<lparr>counter := n, repo := Some r\<rparr>"
    have st1: "subcommand st1 = Some ''push''" "push_message st1 = Some []"
      "repo st1 = Some r" "3 \<le> counter st1"
      using fields far by (auto simp: st1_def)
    have paths: "uris st1 = Some us"
      using fields by (auto simp: st1_def)
    have more: "confirm st1 = cf" "flags st1 = flags p"
      using fields by (auto simp: st1_def)
    have ask: "askPick env ?step ?st [Selected (RepositoryQuickPickItem r b)]
               = Accepted (?st\<lparr>counter := n\<rparr>) (Selected (RepositoryQuickPickItem r b)) []"
      using moved fields(5) by (simp add: askPick_def c2)
    have sel: "selectedRepository ?step (Selected (RepositoryQuickPickItem r b)) = Some r"
      using listed by (simp add: selectedRepository_def chosen_def c2)
    have shape: "(case getOrderedRepositories env of [r'] \<Rightarrow> f r' | _ \<Rightarrow> g) = g" for f g
      using several by (cases "getOrderedRepositories env") (auto split: list.splits)
    have rep: "pickRepository env ?st [Selected (RepositoryQuickPickItem r b)]
               = ([Yield ?step], st1, [], Normal)"
      using fields(4) none
      by (simp add: pickRepository_def Let_def shape ask sel st1_def)
    have quiet: "\<forall>e \<in> set [Yield ?step]. \<forall>t ph v. e \<noteq> Yield (InputStep t ph v)"
      by (simp add: repositoryStep_def Let_def)
    have eq: "pushConfirmStep env r [] ?fl (st1\<lparr>flags := Some ?fl\<rparr>)
              = pushConfirmStep env r [] ?fl (partial_state.extend p (state.fields n cf))"
      using st1 paths assms(4) by (simp add: pushConfirmStep_scoped rows)
    from push_first_pass[OF init head rep fields(1) st1 quiet, unfolded more eq]
    show ?thesis by (simp add: events_def outcome_def c2)
  qed
  from cnt unset rows single one two show ?thesis by blast
qed

definition pushRunState :: partial_state where
  "pushRunState =
     noState\<lparr>subcommand := Some ''push'', push_message := Some [], uris := Some [''src/fileA.ts'']\<rparr>"

definition twoRepoEnv :: env where
  "twoRepoEnv = refEnv [] [repoA, repoB] None succeeding"

theorem C8_push_empty_message_scoped_witness:
  "initialCounter pushRunState = 2
   \<and> initialCounter (pushRunState\<lparr>push_message := None\<rparr>) = 1
   \<and> events (steps dropRunEnv (Some \<lparr>args_state = Some pushRunState, args_confirm = None\<rparr>) [])
      = [Yield (ConfirmStep ''Confirm Stash Push  .  A''
                  [FlagsQuickPickItem [] [] ''Stash Push'' [] ''Will stash changes in src/fileA.ts'',
                   FlagsQuickPickItem [] [KeepIndex] ''Stash Push & Keep Staged'' ''--keep-index ''
                     ''Will stash changes in src/fileA.ts, but will keep staged files intact'']
                  ''Confirm Stash Push'')]
   \<and> events (steps twoRepoEnv (Some \<lparr>args_state = Some pushRunState, args_confirm = None\<rparr>)
               [Selected (RepositoryQuickPickItem repoB False)])
      = [Yield (PickStep ''Stash Push'' ''Choose a repository''
                  [RepositoryQuickPickItem repoA False, RepositoryQuickPickItem repoB False]),
         Yield (ConfirmStep ''Confirm Stash Push  .  B''
                  [FlagsQuickPickItem [] [] ''Stash Push'' [] ''Will stash changes in src/fileA.ts'',
                   FlagsQuickPickItem [] [KeepIndex] ''Stash Push & Keep Staged'' ''--keep-index ''
                     ''Will stash changes in src/fileA.ts, but will keep staged files intact'']
                  ''Confirm Stash Push'')]"
proof -
  have p: "subcommand pushRunState = Some ''push''" "push_message pushRunState = Some []"
    "uris pushRunState = Some [''src/fileA.ts'']" "[''src/fileA.ts''] \<noteq> []"
    by (simp_all add: pushRunState_def noState_def)
  have more: "repo pushRunState = None" "flags pushRunState = None"
    by (simp_all add: pushRunState_def noState_def)
  have sole: "getOrderedRepositories dropRunEnv = [repoA]"
    by (simp add: dropRunEnv_def refEnv_def)
  have several: "\<forall>r'. getOrderedRepositories twoRepoEnv \<noteq> [r']"
    by (simp add: twoRepoEnv_def refEnv_def)
  have asked: "this_confirm dropRunEnv (Some ''push'') None" "this_confirm twoRepoEnv (Some ''push'') None"
    by (simp_all add: dropRunEnv_def twoRepoEnv_def run_defs)
  have menu: "repositoryStep twoRepoEnv (partial_state.extend pushRunState (state.fields 2 None))
              = PickStep ''Stash Push'' ''Choose a repository''
                  [RepositoryQuickPickItem repoA False, RepositoryQuickPickItem repoB False]"
    by (simp add: twoRepoEnv_def refEnv_def repositoryStep_def pushRunState_def noState_def
        partial_state.extend_def state.fields_def title_def getSubtitle_def templ_def
        subcommandToSubtitleMap_def Let_def)
  have listed: "RepositoryQuickPickItem repoB False
                \<in> set (itemsOf (repositoryStep twoRepoEnv
                                  (partial_state.extend pushRunState (state.fields 2 None))))"
    unfolding menu by (simp add: itemsOf_def)
  have moved: "canPickStepMoveNext twoRepoEnv
                 (repositoryStep twoRepoEnv (partial_state.extend pushRunState (state.fields 2 None))) 2
                 (Selected (RepositoryQuickPickItem repoB False)) = Returns True 3"
    by (simp add: twoRepoEnv_def refEnv_def specMoveNext_def)
  have glyphs: "pad dropRunEnv (glyphDot dropRunEnv) 2 2 = ''  .  ''"
    "pad twoRepoEnv (glyphDot twoRepoEnv) 2 2 = ''  .  ''"
    "stashedFiles dropRunEnv repoA [''src/fileA.ts''] = ''src/fileA.ts''"
    "stashedFiles twoRepoEnv repoB [''src/fileA.ts''] = ''src/fileA.ts''"
    "formattedName repoA = ''A''" "formattedName repoB = ''B''"
    by (simp_all add: dropRunEnv_def twoRepoEnv_def refEnv_def repoA_def repoB_def numeral_2_eq_2
        stashedFiles_def)
  note a = C8_push_empty_message_scoped[OF p, of dropRunEnv repoA "[]" 3 None "''src/fileA.ts''" False 3]
  note b = C8_push_empty_message_scoped[OF p, of twoRepoEnv repoB "[]" 3 None "''src/fileA.ts''" False 3]
  from a have cnt: "initialCounter pushRunState = 2"
    "initialCounter (pushRunState\<lparr>push_message := None\<rparr>) = 1"
    using more by simp_all
  from a have rowsA: "pushConfirmStep dropRunEnv repoA [] [] (partial_state.extend pushRunState (state.fields 3 None))
      = ConfirmStep ''Confirm Stash Push  .  A''
                  [FlagsQuickPickItem [] [] ''Stash Push'' [] ''Will stash changes in src/fileA.ts'',
                   FlagsQuickPickItem [] [KeepIndex] ''Stash Push & Keep Staged'' ''--keep-index ''
                     ''Will stash changes in src/fileA.ts, but will keep staged files intact'']
                  ''Confirm Stash Push''"
    unfolding glyphs by simp
  from b have rowsB: "pushConfirmStep twoRepoEnv repoB [] [] (partial_state.extend pushRunState (state.fields 3 None))
      = ConfirmStep ''Confirm Stash Push  .  B''
                  [FlagsQuickPickItem [] [] ''Stash Push'' [] ''Will stash changes in src/fileA.ts'',
                   FlagsQuickPickItem [] [KeepIndex] ''Stash Push & Keep Staged'' ''--keep-index ''
                     ''Will stash changes in src/fileA.ts, but will keep staged files intact'']
                  ''Confirm Stash Push''"
    unfolding glyphs by simp
  from a sole more asked(1)
  have runA: "events (steps dropRunEnv (Some \<lparr>args_state = Some pushRunState, args_confirm = None\<rparr>) [])
      = [Yield (pushConfirmStep dropRunEnv repoA [] [] (partial_state.extend pushRunState (state.fields 3 None)))]"
    by simp
  from b several more asked(2) listed moved
  have runB: "events (steps twoRepoEnv (Some \<lparr>args_state = Some pushRunState, args_confirm = None\<rparr>)
               [Selected (RepositoryQuickPickItem repoB False)])
      = [Yield (repositoryStep twoRepoEnv (partial_state.extend pushRunState (state.fields 2 None))),
         Yield (pushConfirmStep twoRepoEnv repoB [] [] (partial_state.extend pushRunState (state.fields 3 None)))]"
    by simp
  from cnt runA runB show ?thesis
    unfolding rowsA rowsB menu by simp
qed

section \<open>An empty listing\<close>

















section \<open>A single repository\<close>













end
